theory Spec2Isabelle
  imports Main "HOL-Library.AList"
begin

text \<open>
  A model of \<^verbatim>\<open>src/lib/mapping.ts\<close> of lazy-map: \<^verbatim>\<open>mapping(spec)\<close> returns a constructor of
  lazy records, each a Proxy over a target that holds the specification, the source
  value, the store of materialized fields and the set of deleted keys. The six traps of
  \<^verbatim>\<open>handlers\<close> are translated one by one; compute functions, which the \<^verbatim>\<open>get\<close> trap calls
  with the record as \<^verbatim>\<open>this\<close>, are trees of their interactions with the record.
\<close>

section \<open>JavaScript values and plain objects\<close>

text \<open>
  Property names are strings (symbols are left out). The values that a caller assigns
  and that a compute function returns are undefined, the booleans, the numbers
  (modelled by the integers: the accessor protocol never computes with a value, it
  stores it, returns it and tests its truthiness) and the strings. The value null and
  objects are left out: the store is a plain object, and null or an object assigned to
  its name \<^verbatim>\<open>__proto__\<close> would replace its prototype.
\<close>

type_synonym key = string

datatype val = VUndefined | VBool bool | VNum int | VStr string

text \<open>
  What a read can deliver, and what can be thrown: a value; a member of
  \<^verbatim>\<open>Object.prototype\<close>, which every plain object inherits (\<open>Builtin k\<close> is the built-in
  function \<^verbatim>\<open>Object.prototype[k]\<close>, \<open>ObjectPrototype\<close> the object \<^verbatim>\<open>Object.prototype\<close> itself,
  which the inherited accessor \<^verbatim>\<open>__proto__\<close> returns); or the TypeError that the run time
  raises.
\<close>

datatype got = Value val | Builtin key | ObjectPrototype | TypeError

text \<open>ECMAScript \<^verbatim>\<open>ToBoolean\<close>: the falsy values are undefined, false, 0 and the empty string.\<close>

fun to_boolean :: "val \<Rightarrow> bool" where
  "to_boolean VUndefined = False"
| "to_boolean (VBool b) = b"
| "to_boolean (VNum n) = (n \<noteq> 0)"
| "to_boolean (VStr s) = (s \<noteq> [])"

text \<open>
  A plain object (\<^verbatim>\<open>target.store\<close>, \<^verbatim>\<open>target.spec\<close>) is the association list of its own
  properties in creation order; its prototype is \<^verbatim>\<open>Object.prototype\<close>, whose string-named
  members are the twelve below (\<^verbatim>\<open>__proto__\<close> is an accessor, the others are writable data
  properties holding functions).
\<close>

type_synonym 'a obj = "(key \<times> 'a) list"

definition object_prototype_names :: "key list" where
  "object_prototype_names =
     [''constructor'', ''__defineGetter__'', ''__defineSetter__'', ''hasOwnProperty'',
      ''__lookupGetter__'', ''__lookupSetter__'', ''isPrototypeOf'', ''propertyIsEnumerable'',
      ''toString'', ''valueOf'', ''__proto__'', ''toLocaleString'']"

definition inherited :: "key \<Rightarrow> bool" where
  "inherited k = (k \<in> set object_prototype_names)"

definition obj_own :: "key \<Rightarrow> 'a obj \<Rightarrow> bool" where
  \<comment> \<open>\<open>k\<close> is an own property of \<open>o\<close>\<close>
  "obj_own k ob = (map_of ob k \<noteq> None)"

definition obj_in :: "key \<Rightarrow> 'a obj \<Rightarrow> bool" where
  \<comment> \<open>\<^verbatim>\<open>k in o\<close>: own, or found on the prototype\<close>
  "obj_in k ob = (obj_own k ob \<or> inherited k)"

definition obj_read :: "val obj \<Rightarrow> key \<Rightarrow> got" where
  \<comment> \<open>\<^verbatim>\<open>o[k]\<close>: the own value, else the inherited member, else undefined\<close>
  "obj_read ob k =
     (case map_of ob k of
        Some v \<Rightarrow> Value v
      | None \<Rightarrow>
          if k = ''__proto__'' then ObjectPrototype
          else if inherited k then Builtin k
          else Value VUndefined)"

definition obj_write :: "'a obj \<Rightarrow> key \<Rightarrow> 'a \<Rightarrow> 'a obj" where
  \<comment> \<open>\<^verbatim>\<open>o[k] = v\<close>, for a value \<open>v\<close> that is neither null nor an object: an own property is
     updated in place; otherwise the name \<^verbatim>\<open>__proto__\<close> reaches the inherited setter, which
     ignores such a value and creates nothing; any other name becomes a new own property\<close>
  "obj_write ob k v =
     (if \<not> obj_own k ob \<and> k = ''__proto__'' then ob else AList.update k v ob)"

definition obj_delete :: "'a obj \<Rightarrow> key \<Rightarrow> 'a obj" where
  \<comment> \<open>\<^verbatim>\<open>delete o[k]\<close>: removes an own property, never an inherited one\<close>
  "obj_delete ob k = AList.delete k ob"

text \<open>
  \<^verbatim>\<open>Object.keys(o)\<close> lists the own properties: first the names that are array indices
  (canonical decimal numerals below \<open>2\<^sup>3\<^sup>2 - 1\<close>) in ascending numeric order, then the
  other names in creation order.
\<close>

definition digit :: "char \<Rightarrow> nat option" where
  "digit c =
     map_of [(CHR ''0'', 0), (CHR ''1'', 1), (CHR ''2'', 2), (CHR ''3'', 3), (CHR ''4'', 4),
             (CHR ''5'', 5), (CHR ''6'', 6), (CHR ''7'', 7), (CHR ''8'', 8), (CHR ''9'', 9)] c"

primrec digits_value :: "nat \<Rightarrow> string \<Rightarrow> nat option" where
  "digits_value n [] = Some n"
| "digits_value n (c # cs) =
     (case digit c of None \<Rightarrow> None | Some d \<Rightarrow> digits_value (10 * n + d) cs)"

definition array_index :: "key \<Rightarrow> nat option" where
  "array_index k =
     (case k of
        [] \<Rightarrow> None
      | c # cs \<Rightarrow>
          if c = CHR ''0'' \<and> cs \<noteq> [] then None
          else (case digits_value 0 k of
                  None \<Rightarrow> None
                | Some n \<Rightarrow> if n < 4294967295 then Some n else None))"

definition index_rank :: "key \<Rightarrow> nat" where
  "index_rank k = (case array_index k of None \<Rightarrow> 0 | Some n \<Rightarrow> n)"

definition obj_keys :: "'a obj \<Rightarrow> key list" where
  "obj_keys ob =
     (let ks = map fst ob
      in sort_key index_rank (filter (\<lambda>k. array_index k \<noteq> None) ks) @
         filter (\<lambda>k. array_index k = None) ks)"

text \<open>
  \<^verbatim>\<open>Array.from(new Set(xs))\<close>: a JavaScript Set keeps its elements in insertion order and
  ignores the insertion of an element it already has, so the first occurrence of each
  element survives, in order.
\<close>

definition set_add :: "'a list \<Rightarrow> 'a \<Rightarrow> 'a list" where
  "set_add acc x = (if x \<in> set acc then acc else acc @ [x])"

definition array_from_set :: "'a list \<Rightarrow> 'a list" where
  "array_from_set xs = foldl set_add [] xs"

section \<open>Compute functions\<close>

text \<open>
  A property descriptor; \<open>dvalue\<close> is \<open>None\<close> for a descriptor without a \<^verbatim>\<open>value\<close> field.
\<close>

record descriptor =
  dvalue :: "val option"
  enumerable :: bool
  writable :: bool
  configurable :: bool

text \<open>
  A compute function of the specification is called as \<^verbatim>\<open>spec[prop].call(self, source)\<close>,
  with the lazy record itself as \<^verbatim>\<open>this\<close>. Its body can therefore return a value, throw,
  and on the way use the record through every operation of the Proxy; what it does next
  may depend on what the operation answered. A body is the tree of these interactions:
  \<^item> \<open>ThisGet k c\<close> reads \<^verbatim>\<open>this[k]\<close>; the continuation receives what the read
    delivered, or the exception it raised (\<open>Inl\<close>), which a body without a handler
    rethrows;
  \<^item> \<open>ThisSet k v c\<close> performs the Proxy's \<^verbatim>\<open>[[Set]]\<close> of \<^verbatim>\<open>this[k] = v\<close>; the continuation
    receives its success flag;
  \<^item> \<open>ThisDelete k c\<close> is \<^verbatim>\<open>delete this[k]\<close>, \<open>ThisHas k c\<close> is \<^verbatim>\<open>k in this\<close>,
    \<open>ThisOwnKeys c\<close> is \<^verbatim>\<open>Reflect.ownKeys(this)\<close> and \<open>ThisDescribe k c\<close> is
    \<^verbatim>\<open>Reflect.getOwnPropertyDescriptor(this, k)\<close>.
\<close>

datatype comp =
    Return val
  | Throw got
  | ThisGet key "got + got \<Rightarrow> comp"
  | ThisSet key val "bool \<Rightarrow> comp"
  | ThisDelete key "bool \<Rightarrow> comp"
  | ThisHas key "bool \<Rightarrow> comp"
  | ThisOwnKeys "key list \<Rightarrow> comp"
  | ThisDescribe key "descriptor option \<Rightarrow> comp"

text \<open>
  The specification is a plain object: the association list holds its own properties,
  the compute functions.
\<close>

type_synonym 's MappingSpec = "('s \<Rightarrow> comp) obj"

section \<open>The proxy target and its handlers\<close>

text \<open>
  \<^verbatim>\<open>ProxyTarget\<close>, with one field more than the source has: \<open>calls\<close> logs the name of every
  compute function invoked, in order, as the \<^verbatim>\<open>jest.fn\<close> wrappers of the test suite do.
  No handler reads it.
\<close>

record 's ProxyTarget =
  spec :: "'s MappingSpec"
  source :: 's
  store :: "val obj"
  deletedKeys :: "key set"
  calls :: "key list"

text \<open>
  A read delivers something or raises; a compute function returns a value or raises.
  \<open>None\<close> is the run that does not finish.
\<close>

type_synonym 's outcome = "((got + got) \<times> 's ProxyTarget) option"

type_synonym 's completion = "((got + val) \<times> 's ProxyTarget) option"

text \<open>\<^verbatim>\<open>has(target, key) { return (key in target.store) || (key in target.spec); }\<close>\<close>

definition has :: "'s ProxyTarget \<Rightarrow> key \<Rightarrow> bool" where
  "has target k = (obj_in k (store target) \<or> obj_in k (spec target))"

text \<open>
  \<^verbatim>\<open>set(target, prop, value) { target.deletedKeys.delete(prop); return target.store[prop] = value; }\<close>
  The value of the assignment expression, which the trap returns, is \<open>value\<close>.
\<close>

definition set_handler :: "'s ProxyTarget \<Rightarrow> key \<Rightarrow> val \<Rightarrow> val \<times> 's ProxyTarget" where
  "set_handler target prop v =
     (let t1 = target\<lparr>deletedKeys := deletedKeys target - {prop}\<rparr>;
          t2 = t1\<lparr>store := obj_write (store t1) prop v\<rparr>
      in (v, t2))"

text \<open>
  \<^verbatim>\<open>deleteProperty(target, prop) { delete target.store[prop]; target.deletedKeys.add(prop); return true; }\<close>
\<close>

definition deleteProperty :: "'s ProxyTarget \<Rightarrow> key \<Rightarrow> bool \<times> 's ProxyTarget" where
  "deleteProperty target prop =
     (let t1 = target\<lparr>store := obj_delete (store target) prop\<rparr>;
          t2 = t1\<lparr>deletedKeys := insert prop (deletedKeys t1)\<rparr>
      in (True, t2))"

text \<open>
  \<^verbatim>\<open>ownKeys(target)\<close>: the keys of the specification followed by the keys of the store,
  through a Set, without the deleted keys.
\<close>

definition ownKeys :: "'s ProxyTarget \<Rightarrow> key list" where
  "ownKeys target =
     (let allKeys = obj_keys (spec target) @ obj_keys (store target)
      in filter (\<lambda>k. k \<notin> deletedKeys target) (array_from_set allKeys))"

text \<open>
  \<^verbatim>\<open>getOwnPropertyDescriptor(target, prop)\<close>: when \<^verbatim>\<open>prop in target.store\<close>, what
  \<^verbatim>\<open>Reflect.getOwnPropertyDescriptor(target.store, prop)\<close> gives: for an own property (created
  by assignment, so a data property with its value, enumerable, writable and
  configurable) its descriptor, for a name that is only inherited nothing. Else, when
  \<^verbatim>\<open>prop in target.spec\<close>, a descriptor of the three flags and no value; else nothing.
\<close>

definition getOwnPropertyDescriptor :: "'s ProxyTarget \<Rightarrow> key \<Rightarrow> descriptor option" where
  "getOwnPropertyDescriptor target prop =
     (if obj_in prop (store target) then
        (case map_of (store target) prop of
           Some v \<Rightarrow>
             Some \<lparr>dvalue = Some v, enumerable = True, writable = True, configurable = True\<rparr>
         | None \<Rightarrow> None)
      else if obj_in prop (spec target) then
        Some \<lparr>dvalue = None, enumerable = True, writable = True, configurable = True\<rparr>
      else None)"

text \<open>
  The record is \<^verbatim>\<open>new Proxy(target, handlers)\<close>, and a compute function reaches the
  handlers through the Proxy. Its \<^verbatim>\<open>[[Set]]\<close> calls the \<^verbatim>\<open>set\<close> trap and converts what the
  trap returns with \<^verbatim>\<open>ToBoolean\<close>: that flag is the success of the assignment. Its
  \<^verbatim>\<open>[[GetOwnProperty]]\<close> completes the descriptor that the trap returns: a descriptor
  without a value gets the value undefined. The target has no property that is not
  configurable and is extensible, so no invariant of the Proxy rejects an answer of a
  trap, and the other traps' answers pass as they are.
\<close>

definition proxy_Set :: "'s ProxyTarget \<Rightarrow> key \<Rightarrow> val \<Rightarrow> bool \<times> 's ProxyTarget" where
  "proxy_Set target prop v =
     (case set_handler target prop v of (r, t') \<Rightarrow> (to_boolean r, t'))"

definition complete :: "descriptor \<Rightarrow> descriptor" where
  "complete d = d\<lparr>dvalue := Some (case dvalue d of None \<Rightarrow> VUndefined | Some v \<Rightarrow> v)\<rparr>"

definition proxy_GetOwnProperty :: "'s ProxyTarget \<Rightarrow> key \<Rightarrow> descriptor option" where
  "proxy_GetOwnProperty target prop = map_option complete (getOwnPropertyDescriptor target prop)"

text \<open>
  Running the body of a compute function against the record. \<open>rd\<close> is the \<^verbatim>\<open>get\<close> handler
  the reads of the body go to. \<open>None\<close> means that the run does not finish.
\<close>

primrec run ::
  "('s ProxyTarget \<Rightarrow> key \<Rightarrow> 's outcome) \<Rightarrow> comp \<Rightarrow> 's ProxyTarget \<Rightarrow> 's completion" where
  "run rd (Return v) = (\<lambda>t. Some (Inr v, t))"
| "run rd (Throw e) = (\<lambda>t. Some (Inl e, t))"
| "run rd (ThisGet k c) = (\<lambda>t.
     case rd t k of None \<Rightarrow> None | Some (r, t') \<Rightarrow> run rd (c r) t')"
| "run rd (ThisSet k v c) = (\<lambda>t.
     case proxy_Set t k v of (ok, t') \<Rightarrow> run rd (c ok) t')"
| "run rd (ThisDelete k c) = (\<lambda>t.
     case deleteProperty t k of (ok, t') \<Rightarrow> run rd (c ok) t')"
| "run rd (ThisHas k c) = (\<lambda>t. run rd (c (has t k)) t)"
| "run rd (ThisOwnKeys c) = (\<lambda>t. run rd (c (ownKeys t)) t)"
| "run rd (ThisDescribe k c) = (\<lambda>t. run rd (c (proxy_GetOwnProperty t k)) t)"

text \<open>
  The \<^verbatim>\<open>get\<close> handler, given the way \<open>call\<close> to execute the body of a compute function
  with the record as \<^verbatim>\<open>this\<close>:
  \<^verbatim>\<open>if (target.deletedKeys.has(prop)) { return undefined; }\<close>
  \<^verbatim>\<open>if (!(prop in target.store) && (prop in target.spec)) {\<close>
  \<^verbatim>\<open>  target.store[prop] = target.spec[prop].call(self, target.source); }\<close>
  \<^verbatim>\<open>return target.store[prop];\<close>
  An exception of the compute function leaves the handler before the assignment. The
  call is logged in \<open>calls\<close> when it starts. Store and specification inherit the same
  names, so a name that is not in the store and is in the specification is an own
  property of the specification, and \<^verbatim>\<open>target.spec[prop]\<close> is its compute function: the
  case \<open>None\<close> of the lookup does not arise (lemma \<open>in_spec_not_in_store\<close>).
\<close>

definition get_with ::
  "(comp \<Rightarrow> 's ProxyTarget \<Rightarrow> 's completion) \<Rightarrow> 's ProxyTarget \<Rightarrow> key \<Rightarrow> 's outcome" where
  "get_with call target prop =
     (if prop \<in> deletedKeys target then Some (Inr (Value VUndefined), target)
      else if \<not> obj_in prop (store target) \<and> obj_in prop (spec target) then
        (case map_of (spec target) prop of
           None \<Rightarrow> None
         | Some fn \<Rightarrow>
             (case call (fn (source target)) (target\<lparr>calls := calls target @ [prop]\<rparr>) of
                None \<Rightarrow> None
              | Some (Inl e, t') \<Rightarrow> Some (Inl e, t')
              | Some (Inr v, t') \<Rightarrow>
                  (let t'' = t'\<lparr>store := obj_write (store t') prop v\<rparr>
                   in Some (Inr (obj_read (store t'') prop), t''))))
      else Some (Inr (obj_read (store target) prop), target))"

text \<open>
  A compute function can read fields whose compute functions read fields in turn, and
  nothing in the source bounds that nesting: a field that reads itself recurses for
  ever. \<open>get n\<close> is the handler with \<open>n\<close> levels of nested compute calls available;
  \<open>None\<close> says that the levels did not suffice.
\<close>

primrec get :: "nat \<Rightarrow> 's ProxyTarget \<Rightarrow> key \<Rightarrow> 's outcome" where
  "get 0 = get_with (\<lambda>c t. None)"
| "get (Suc n) = get_with (run (get n))"

definition proxyFactory :: "'s MappingSpec \<Rightarrow> 's \<Rightarrow> 's ProxyTarget" where
  "proxyFactory sp src = \<lparr>spec = sp, source = src, store = [], deletedKeys = {}, calls = []\<rparr>"

definition mapping :: "'s MappingSpec \<Rightarrow> 's \<Rightarrow> 's ProxyTarget" where
  "mapping sp = (\<lambda>src. proxyFactory sp src)"

text \<open>
  A caller's assignment \<^verbatim>\<open>record[prop] = v\<close> is the Proxy's \<^verbatim>\<open>[[Set]]\<close>. In strict-mode code
  (every ES module is strict) the assignment throws a TypeError when \<^verbatim>\<open>[[Set]]\<close> reports
  failure, and evaluates to \<open>v\<close> otherwise. The write of the trap has happened in both
  cases.
\<close>

definition assign :: "'s ProxyTarget \<Rightarrow> key \<Rightarrow> val \<Rightarrow> (got + val) \<times> 's ProxyTarget" where
  "assign target prop v =
     (case proxy_Set target prop v of
        (True, t') \<Rightarrow> (Inr v, t')
      | (False, t') \<Rightarrow> (Inl TypeError, t'))"

section \<open>Reachable records, and specifications used in the examples\<close>

text \<open>
  The states a record can be in: the fresh record, and what a read, a write or a
  deletion makes of a reachable state. \<^verbatim>\<open>has\<close>, \<^verbatim>\<open>ownKeys\<close> and \<^verbatim>\<open>getOwnPropertyDescriptor\<close>
  return a value and leave the target as it is.
\<close>

inductive reachable :: "'s MappingSpec \<Rightarrow> 's \<Rightarrow> 's ProxyTarget \<Rightarrow> bool"
  for sp :: "'s MappingSpec" and src :: 's where
  reach_new: "reachable sp src (mapping sp src)"
| reach_get: "reachable sp src t \<Longrightarrow> get n t p = Some (r, t') \<Longrightarrow> reachable sp src t'"
| reach_set: "reachable sp src t \<Longrightarrow> reachable sp src (snd (set_handler t p v))"
| reach_delete: "reachable sp src t \<Longrightarrow> reachable sp src (snd (deleteProperty t p))"

text \<open>
  \<open>evolves t t'\<close>: the record gets from state \<open>t\<close> to state \<open>t'\<close> by reads, writes and
  deletions, of any fields and in any number.
\<close>

inductive evolves :: "'s ProxyTarget \<Rightarrow> 's ProxyTarget \<Rightarrow> bool"
  for t :: "'s ProxyTarget" where
  ev_start: "evolves t t"
| ev_get: "evolves t t1 \<Longrightarrow> get n t1 p = Some (r, t2) \<Longrightarrow> evolves t t2"
| ev_set: "evolves t t1 \<Longrightarrow> evolves t (snd (set_handler t1 p v))"
| ev_delete: "evolves t t1 \<Longrightarrow> evolves t (snd (deleteProperty t1 p))"

text \<open>\<^verbatim>\<open>this[k]\<close> in a body that does not catch exceptions.\<close>

definition this_read :: "key \<Rightarrow> (got \<Rightarrow> comp) \<Rightarrow> comp" where
  "this_read k c = ThisGet k (\<lambda>r. case r of Inl e \<Rightarrow> Throw e | Inr g \<Rightarrow> c g)"

text \<open>
  A body that reads through \<^verbatim>\<open>this\<close> only fields of the set \<open>K\<close>, whatever it is answered;
  and a set of fields that is closed under reading: the compute functions of the
  fields of \<open>K\<close> read only fields of \<open>K\<close>.
\<close>

primrec reads_only :: "key set \<Rightarrow> comp \<Rightarrow> bool" where
  "reads_only K (Return v) = True"
| "reads_only K (Throw e) = True"
| "reads_only K (ThisGet k c) = (k \<in> K \<and> (\<forall>r. reads_only K (c r)))"
| "reads_only K (ThisSet k v c) = (\<forall>ok. reads_only K (c ok))"
| "reads_only K (ThisDelete k c) = (\<forall>ok. reads_only K (c ok))"
| "reads_only K (ThisHas k c) = (\<forall>b. reads_only K (c b))"
| "reads_only K (ThisOwnKeys c) = (\<forall>ks. reads_only K (c ks))"
| "reads_only K (ThisDescribe k c) = (\<forall>d. reads_only K (c d))"

definition closed_reads :: "'s MappingSpec \<Rightarrow> key set \<Rightarrow> bool" where
  "closed_reads sp K = (\<forall>(k, fn) \<in> set sp. k \<in> K \<longrightarrow> (\<forall>src. reads_only K (fn src)))"

text \<open>A body that never executes \<^verbatim>\<open>delete this[k]\<close>, whatever it is answered.\<close>

primrec no_delete :: "comp \<Rightarrow> bool" where
  "no_delete (Return v) = True"
| "no_delete (Throw e) = True"
| "no_delete (ThisGet k c) = (\<forall>r. no_delete (c r))"
| "no_delete (ThisSet k v c) = (\<forall>ok. no_delete (c ok))"
| "no_delete (ThisDelete k c) = False"
| "no_delete (ThisHas k c) = (\<forall>b. no_delete (c b))"
| "no_delete (ThisOwnKeys c) = (\<forall>ks. no_delete (c ks))"
| "no_delete (ThisDescribe k c) = (\<forall>d. no_delete (c d))"

definition never_deletes :: "'s MappingSpec \<Rightarrow> bool" where
  "never_deletes sp = (\<forall>(k, fn) \<in> set sp. \<forall>src. no_delete (fn src))"

text \<open>\<^verbatim>\<open>{ f: src => 1 }\<close>\<close>

definition const_spec :: "unit MappingSpec" where
  "const_spec = [(''f'', \<lambda>src. Return (VNum 1))]"

text \<open>\<^verbatim>\<open>{ f: src => { throw 'boom' } }\<close>\<close>

definition throwing_spec :: "unit MappingSpec" where
  "throwing_spec = [(''f'', \<lambda>src. Throw (Value (VStr ''boom'')))]"

text \<open>
  \<^verbatim>\<open>{ name: src => 'Lando',\<close>
  \<^verbatim>\<open>  contactInfo() { const n = this.name; return typeof n === 'string' ? n : 'unknown' } }\<close>
\<close>

definition sibling_spec :: "unit MappingSpec" where
  "sibling_spec =
     [(''name'', \<lambda>src. Return (VStr ''Lando'')),
      (''contactInfo'', \<lambda>src. this_read ''name'' (\<lambda>n.
         case n of Value (VStr s) \<Rightarrow> Return (VStr s) | _ \<Rightarrow> Return (VStr ''unknown'')))]"

text \<open>
  The specification of the test suite, with constants for the fields of the source:
  \<^verbatim>\<open>{ name: src => 'Lando Calrissian', phone: src => '555-123-1234',\<close>
  \<^verbatim>\<open>  contactInfo() { const n = this.name, p = this.phone;\<close>
  \<^verbatim>\<open>    return typeof n === 'string' && typeof p === 'string' ? n + ' ' + p : 'unknown' } }\<close>
\<close>

definition person_spec :: "unit MappingSpec" where
  "person_spec =
     [(''name'', \<lambda>src. Return (VStr ''Lando Calrissian'')),
      (''phone'', \<lambda>src. Return (VStr ''555-123-1234'')),
      (''contactInfo'', \<lambda>src. this_read ''name'' (\<lambda>n. this_read ''phone'' (\<lambda>p.
         case (n, p) of
           (Value (VStr a), Value (VStr b)) \<Rightarrow> Return (VStr (a @ '' '' @ b))
         | _ \<Rightarrow> Return (VStr ''unknown''))))]"


text \<open>
  \<^verbatim>\<open>{ f() { if (this.busy === undefined) { this.busy = true; this.f; return 2 } return 1 } }\<close>
\<close>

definition reentrant_spec :: "unit MappingSpec" where
  "reentrant_spec =
     [(''f'', \<lambda>src. this_read ''busy'' (\<lambda>b.
         if b = Value VUndefined
         then ThisSet ''busy'' (VBool True) (\<lambda>ok. this_read ''f'' (\<lambda>x. Return (VNum 2)))
         else Return (VNum 1)))]"

text \<open>\<^verbatim>\<open>{ f() { delete this.f; return 1 } }\<close>\<close>

definition self_deleting_spec :: "unit MappingSpec" where
  "self_deleting_spec = [(''f'', \<lambda>src. ThisDelete ''f'' (\<lambda>ok. Return (VNum 1)))]"

text \<open>\<^verbatim>\<open>{ toString: src => 'x' }\<close>, a field named like a member of \<^verbatim>\<open>Object.prototype\<close>.\<close>

definition shadowed_spec :: "unit MappingSpec" where
  "shadowed_spec = [(''toString'', \<lambda>src. Return (VStr ''x''))]"

text \<open>
  What an operation that runs no \<^verbatim>\<open>delete\<close> does to the tombstones: it adds none, it keeps
  the specification, and it keeps store and tombstones disjoint if they were.
\<close>

definition keeps_disjoint :: "'s ProxyTarget \<Rightarrow> 's ProxyTarget \<Rightarrow> bool" where
  "keeps_disjoint t t' \<longleftrightarrow>
     deletedKeys t' \<subseteq> deletedKeys t \<and> spec t' = spec t \<and>
     (set (obj_keys (store t)) \<inter> deletedKeys t = {} \<longrightarrow>
      set (obj_keys (store t')) \<inter> deletedKeys t' = {})"

text \<open>
  What an operation that invokes no compute function of \<open>f\<close> does to the log: it keeps
  the number of calls of \<open>f\<close>, and it keeps the specification.
\<close>

definition keeps_count :: "key \<Rightarrow> 's ProxyTarget \<Rightarrow> 's ProxyTarget \<Rightarrow> bool" where
  "keeps_count f t t' \<longleftrightarrow>
     spec t' = spec t \<and> count_list (calls t') f = count_list (calls t) f"

text \<open>
  The states in which the \<^verbatim>\<open>get\<close> handler does not call the compute function of \<open>f\<close>: the
  name is tombstoned (first test of the handler), or it is in the store, or it is not
  in the specification (second test).
\<close>

definition settled :: "key \<Rightarrow> 's ProxyTarget \<Rightarrow> bool" where
  "settled f t \<longleftrightarrow> f \<in> deletedKeys t \<or> obj_in f (store t) \<or> \<not> obj_in f (spec t)"

text \<open>
  What every operation does to a settled field: it leaves it settled, and it invokes no
  compute function of \<open>f\<close>.
\<close>

definition keeps_settled :: "key \<Rightarrow> 's ProxyTarget \<Rightarrow> 's ProxyTarget \<Rightarrow> bool" where
  "keeps_settled f t t' \<longleftrightarrow>
     spec t' = spec t \<and>
     (settled f t \<longrightarrow> settled f t' \<and> count_list (calls t') f = count_list (calls t) f)"

section \<open>Lemmas\<close>

subsection \<open>Plain objects\<close>

lemma set_obj_keys: "set (obj_keys ob) = fst ` set ob"
  by (auto simp: obj_keys_def Let_def)

lemma obj_own_keys: "obj_own k ob \<longleftrightarrow> k \<in> set (obj_keys ob)"
  by (simp add: set_obj_keys obj_own_def map_of_eq_None_iff)

lemma distinct_obj_keys: "distinct (map fst ob) \<Longrightarrow> distinct (obj_keys ob)"
  by (auto simp: obj_keys_def Let_def distinct_map_filter)

lemma inherited_proto: "inherited ''__proto__''"
  by (simp add: inherited_def object_prototype_names_def)

lemma not_in_store: "\<not> obj_in k ob \<Longrightarrow> \<not> obj_own k ob \<and> \<not> inherited k \<and> k \<noteq> ''__proto__''"
  using inherited_proto by (auto simp: obj_in_def)

lemma in_spec_not_in_store: "\<not> obj_in k st \<Longrightarrow> obj_in k sp \<Longrightarrow> map_of sp k \<noteq> None"
  by (simp add: obj_in_def obj_own_def)


lemma obj_own_write:
  "obj_own k (obj_write ob k' v) \<longleftrightarrow>
     (k = k' \<and> (k' \<noteq> ''__proto__'' \<or> obj_own k' ob)) \<or> obj_own k ob"
  by (auto simp: obj_own_def obj_write_def update_conv')

lemma obj_in_write: "obj_in k (obj_write ob k' v) \<longleftrightarrow> k = k' \<or> obj_in k ob"
  using inherited_proto by (auto simp: obj_in_def obj_own_write)

lemma obj_read_write_same:
  "k \<noteq> ''__proto__'' \<or> obj_own k ob \<Longrightarrow> obj_read (obj_write ob k v) k = Value v"
  by (auto simp: obj_read_def obj_write_def obj_own_def update_conv')

lemma obj_read_write_other: "k' \<noteq> k \<Longrightarrow> obj_read (obj_write ob k v) k' = obj_read ob k'"
  by (simp add: obj_read_def obj_write_def update_conv')

lemma obj_own_delete: "obj_own k (obj_delete ob k') \<longleftrightarrow> k \<noteq> k' \<and> obj_own k ob"
  by (auto simp: obj_own_def obj_delete_def delete_conv')

lemma obj_delete_absent: "\<not> obj_own k ob \<Longrightarrow> obj_delete ob k = ob"
  by (simp add: obj_own_def obj_delete_def map_of_eq_None_iff)

lemma obj_delete_twice: "obj_delete (obj_delete ob k) k = obj_delete ob k"
  by (simp add: obj_delete_def delete_idem)

lemma distinct_obj_write: "distinct (map fst ob) \<Longrightarrow> distinct (map fst (obj_write ob k v))"
  by (simp add: obj_write_def distinct_update)

lemma distinct_obj_delete: "distinct (map fst ob) \<Longrightarrow> distinct (map fst (obj_delete ob k))"
  by (simp add: obj_delete_def distinct_delete)

lemma obj_keys_write: "set (obj_keys (obj_write ob k v)) \<subseteq> insert k (set (obj_keys ob))"
  by (auto simp: set_obj_keys obj_write_def dom_update)

lemma obj_keys_delete: "set (obj_keys (obj_delete ob k)) = set (obj_keys ob) - {k}"
  by (simp add: set_obj_keys obj_delete_def delete_keys flip: set_map)

subsection \<open>The order of a Set\<close>

lemma set_add_old: "x \<in> set acc \<Longrightarrow> set_add acc x = acc"
  by (simp add: set_add_def)

lemma set_add_new: "x \<notin> set acc \<Longrightarrow> set_add acc x = acc @ [x]"
  by (simp add: set_add_def)

lemma set_set_add: "set (set_add acc x) = insert x (set acc)"
  by (auto simp: set_add_def)

lemma set_foldl_set_add: "set (foldl set_add acc xs) = set acc \<union> set xs"
  by (induction xs arbitrary: acc) (auto simp: set_set_add)

lemma distinct_foldl_set_add: "distinct acc \<Longrightarrow> distinct (foldl set_add acc xs)"
proof (induction xs arbitrary: acc)
  case Nil
  then show ?case by simp
next
  case (Cons x xs)
  from Cons.prems have "distinct (set_add acc x)" by (simp add: set_add_def)
  then show ?case using Cons.IH by simp
qed

lemma foldl_set_add_distinct: "distinct (acc @ xs) \<Longrightarrow> foldl set_add acc xs = acc @ xs"
proof (induction xs arbitrary: acc)
  case Nil
  then show ?case by simp
next
  case (Cons x xs)
  from Cons.prems have new: "set_add acc x = acc @ [x]" by (simp add: set_add_new)
  from Cons.prems have "distinct ((acc @ [x]) @ xs)" by simp
  from Cons.IH[OF this] new show ?case by simp
qed

lemma foldl_set_add_split:
  "foldl set_add acc xs = acc @ filter (\<lambda>y. y \<notin> set acc) (foldl set_add [] xs)"
proof (induction xs arbitrary: acc)
  case Nil
  show ?case by simp
next
  case (Cons x xs)
  have one: "foldl set_add [x] xs = [x] @ filter (\<lambda>y. y \<noteq> x) (foldl set_add [] xs)"
    using Cons.IH[of "[x]"] by simp
  have hd: "foldl set_add [] (x # xs) = foldl set_add [x] xs"
    by (simp add: set_add_def)
  show ?case
  proof (cases "x \<in> set acc")
    case True
    have "filter (\<lambda>y. y \<notin> set acc) (filter (\<lambda>y. y \<noteq> x) (foldl set_add [] xs))
            = filter (\<lambda>y. y \<notin> set acc) (foldl set_add [] xs)"
      using True by (auto intro!: filter_cong)
    then have "filter (\<lambda>y. y \<notin> set acc) (foldl set_add [] (x # xs))
            = filter (\<lambda>y. y \<notin> set acc) (foldl set_add [] xs)"
      using True by (simp only: hd one) simp
    moreover have "foldl set_add acc (x # xs) = foldl set_add acc xs"
      using True by (simp add: set_add_old)
    ultimately show ?thesis using Cons.IH[of acc] by simp
  next
    case False
    have "filter (\<lambda>y. y \<notin> set (acc @ [x])) (foldl set_add [] xs)
            = filter (\<lambda>y. y \<notin> set acc) (filter (\<lambda>y. y \<noteq> x) (foldl set_add [] xs))"
      by (auto intro!: filter_cong)
    then have "acc @ filter (\<lambda>y. y \<notin> set acc) (foldl set_add [] (x # xs))
            = (acc @ [x]) @ filter (\<lambda>y. y \<notin> set (acc @ [x])) (foldl set_add [] xs)"
      using False by (simp only: hd one) simp
    moreover have "foldl set_add acc (x # xs) = foldl set_add (acc @ [x]) xs"
      using False by (simp add: set_add_new)
    ultimately show ?thesis using Cons.IH[of "acc @ [x]"] by simp
  qed
qed

lemma set_array_from_set: "set (array_from_set xs) = set xs"
  by (simp add: array_from_set_def set_foldl_set_add)

lemma distinct_array_from_set: "distinct (array_from_set xs)"
  by (simp add: array_from_set_def distinct_foldl_set_add)

lemma array_from_set_distinct: "distinct xs \<Longrightarrow> array_from_set xs = xs"
  using foldl_set_add_distinct[of "[]" xs] by (simp add: array_from_set_def)

lemma array_from_set_append:
  "array_from_set (xs @ ys) = array_from_set xs @ filter (\<lambda>y. y \<notin> set xs) (array_from_set ys)"
  using foldl_set_add_split[of "foldl set_add [] xs" ys]
  by (simp add: array_from_set_def set_foldl_set_add)

subsection \<open>The handlers, case by case\<close>

lemma set_handler_eq:
  "set_handler t p v = (v, t\<lparr>deletedKeys := deletedKeys t - {p}, store := obj_write (store t) p v\<rparr>)"
  by (simp add: set_handler_def)

lemma deleteProperty_eq:
  "deleteProperty t p = (True, t\<lparr>store := obj_delete (store t) p, deletedKeys := insert p (deletedKeys t)\<rparr>)"
  by (simp add: deleteProperty_def)

lemma get_tombstoned: "p \<in> deletedKeys t \<Longrightarrow> get n t p = Some (Inr (Value VUndefined), t)"
  by (cases n) (simp_all add: get_with_def)

lemma get_stored:
  "p \<notin> deletedKeys t \<Longrightarrow> obj_in p (store t) \<Longrightarrow> get n t p = Some (Inr (obj_read (store t) p), t)"
  by (cases n) (simp_all add: get_with_def)

lemma get_unknown:
  "p \<notin> deletedKeys t \<Longrightarrow> \<not> obj_in p (spec t) \<Longrightarrow>
   get n t p = Some (Inr (obj_read (store t) p), t)"
  by (cases n) (simp_all add: get_with_def)

lemma get_compute:
  assumes "p \<notin> deletedKeys t" "\<not> obj_in p (store t)" "map_of (spec t) p = Some fn"
  shows "get (Suc n) t p =
     (case run (get n) (fn (source t)) (t\<lparr>calls := calls t @ [p]\<rparr>) of
        None \<Rightarrow> None
      | Some (Inl e, t') \<Rightarrow> Some (Inl e, t')
      | Some (Inr v, t') \<Rightarrow> Some (Inr (Value v), t'\<lparr>store := obj_write (store t') p v\<rparr>))"
proof -
  from assms(2) have np: "p \<noteq> ''__proto__''" by (simp add: not_in_store)
  from assms(3) have "obj_in p (spec t)" by (simp add: obj_in_def obj_own_def)
  with assms np show ?thesis
    by (simp add: get_with_def obj_read_write_same split: option.splits sum.splits prod.splits)
qed

lemma get_compute_0:
  "p \<notin> deletedKeys t \<Longrightarrow> \<not> obj_in p (store t) \<Longrightarrow> map_of (spec t) p = Some fn \<Longrightarrow>
   get 0 t p = None"
  by (simp add: get_with_def obj_in_def obj_own_def)

subsection \<open>The three ways a read ends\<close>

lemma get_cases:
  assumes "get n t f = Some (r, t')"
  obtains (same) "t' = t" "r = Inr (Value VUndefined) \<or> r = Inr (obj_read (store t) f)"
      "f \<in> deletedKeys t \<or> obj_in f (store t) \<or> \<not> obj_in f (spec t)"
    | (raised) m fn e where "n = Suc m" "f \<notin> deletedKeys t" "\<not> obj_in f (store t)"
      "map_of (spec t) f = Some fn" "r = Inl e"
      "run (get m) (fn (source t)) (t\<lparr>calls := calls t @ [f]\<rparr>) = Some (Inl e, t')"
    | (computed) m fn v t1 where "n = Suc m" "f \<notin> deletedKeys t" "\<not> obj_in f (store t)"
      "map_of (spec t) f = Some fn" "r = Inr (Value v)"
      "run (get m) (fn (source t)) (t\<lparr>calls := calls t @ [f]\<rparr>) = Some (Inr v, t1)"
      "t' = t1\<lparr>store := obj_write (store t1) f v\<rparr>"
proof (cases "f \<in> deletedKeys t \<or> obj_in f (store t) \<or> \<not> obj_in f (spec t)")
  case True
  with assms have "t' = t \<and> (r = Inr (Value VUndefined) \<or> r = Inr (obj_read (store t) f))"
    using get_tombstoned[of f t n] get_stored[of f t n] get_unknown[of f t n] by auto
  with True show ?thesis using same by blast
next
  case False
  then have "map_of (spec t) f \<noteq> None" using in_spec_not_in_store by blast
  with False obtain fn where fn: "f \<notin> deletedKeys t" "\<not> obj_in f (store t)" "map_of (spec t) f = Some fn"
    by auto
  from assms fn obtain m where n: "n = Suc m"
    using get_compute_0[OF fn] by (cases n) auto
  note eq = get_compute[OF fn, of m]
  show ?thesis
  proof (cases "run (get m) (fn (source t)) (t\<lparr>calls := calls t @ [f]\<rparr>)")
    case None
    with assms n eq show ?thesis by simp
  next
    case (Some a)
    obtain r1 t1 where a: "a = (r1, t1)" by (cases a)
    show ?thesis
    proof (cases r1)
      case (Inl e)
      with assms n eq Some a have "r = Inl e" "t' = t1" by simp_all
      with Some a Inl n fn show ?thesis using raised by blast
    next
      case (Inr v)
      with assms n eq Some a have "r = Inr (Value v)" "t' = t1\<lparr>store := obj_write (store t1) f v\<rparr>"
        by simp_all
      with Some a Inr n fn show ?thesis using computed by blast
    qed
  qed
qed

subsection \<open>Relations that every run preserves\<close>

lemma run_rel:
  assumes refl: "\<And>t. R t t"
    and trans: "\<And>a b c. R a b \<Longrightarrow> R b c \<Longrightarrow> R a c"
    and rd: "\<And>t k r t'. rd t k = Some (r, t') \<Longrightarrow> R t t'"
    and st: "\<And>t k v. R t (snd (set_handler t k v))"
    and dl: "\<And>t k. R t (snd (deleteProperty t k))"
  shows "run rd c t = Some (r, t') \<Longrightarrow> R t t'"
proof (induction c arbitrary: t)
  case (Return x)
  then show ?case using refl by simp
next
  case (Throw x)
  then show ?case using refl by simp
next
  case (ThisGet k c)
  from ThisGet.prems obtain r1 t1 where g: "rd t k = Some (r1, t1)" and rest: "run rd (c r1) t1 = Some (r, t')"
    by (auto split: option.splits)
  from rd[OF g] ThisGet.IH[OF rangeI rest] show ?case using trans by blast
next
  case (ThisSet k v c)
  obtain ok t1 where p: "proxy_Set t k v = (ok, t1)" by (cases "proxy_Set t k v")
  then have t1: "t1 = snd (set_handler t k v)" by (auto simp: proxy_Set_def split: prod.splits)
  from ThisSet.prems p have "run rd (c ok) t1 = Some (r, t')" by simp
  from ThisSet.IH[OF rangeI this] st[of t k v] t1 show ?case using trans by blast
next
  case (ThisDelete k c)
  obtain ok t1 where p: "deleteProperty t k = (ok, t1)" by (cases "deleteProperty t k")
  then have t1: "t1 = snd (deleteProperty t k)" by simp
  from ThisDelete.prems p have "run rd (c ok) t1 = Some (r, t')" by simp
  from ThisDelete.IH[OF rangeI this] dl[of t k] t1 show ?case using trans by blast
next
  case (ThisHas k c)
  from ThisHas.IH[OF rangeI] ThisHas.prems show ?case by simp
next
  case (ThisOwnKeys c)
  from ThisOwnKeys.IH[OF rangeI] ThisOwnKeys.prems show ?case by simp
next
  case (ThisDescribe k c)
  from ThisDescribe.IH[OF rangeI] ThisDescribe.prems show ?case by simp
qed

lemma get_rel:
  assumes refl: "\<And>t. R t t"
    and trans: "\<And>a b c. R a b \<Longrightarrow> R b c \<Longrightarrow> R a c"
    and st: "\<And>t k v. R t (snd (set_handler t k v))"
    and dl: "\<And>t k. R t (snd (deleteProperty t k))"
    and lg: "\<And>t p. R t (t\<lparr>calls := calls t @ [p]\<rparr>)"
    and wr: "\<And>t p v. R t (t\<lparr>store := obj_write (store t) p v\<rparr>)"
  shows "get n t p = Some (r, t') \<Longrightarrow> R t t'"
proof (induction n arbitrary: t p r t')
  case 0
  from "0.prems" show ?case
    by (cases rule: get_cases) (simp_all add: refl)
next
  case (Suc n)
  from Suc.prems show ?case
  proof (cases rule: get_cases)
    case same
    then show ?thesis by (simp add: refl)
  next
    case (raised m fn e)
    let ?t0 = "t\<lparr>calls := calls t @ [p]\<rparr>"
    have "R ?t0 t'"
    proof (rule run_rel[where R = R and rd = "get n"])
      show "run (get n) (fn (source t)) ?t0 = Some (Inl e, t')" using raised(1,6) by simp
    qed (use refl trans st dl Suc.IH in blast)+
    with lg[of t p] show ?thesis using trans by blast
  next
    case (computed m fn v t1)
    let ?t0 = "t\<lparr>calls := calls t @ [p]\<rparr>"
    have "R ?t0 t1"
    proof (rule run_rel[where R = R and rd = "get n"])
      show "run (get n) (fn (source t)) ?t0 = Some (Inr v, t1)" using computed(1,6) by simp
    qed (use refl trans st dl Suc.IH in blast)+
    with lg[of t p] have "R t t1" using trans by blast
    with computed(7) wr[of t1 p v] show ?thesis using trans by blast
  qed
qed

lemma get_spec: "get n t p = Some (r, t') \<Longrightarrow> spec t' = spec t \<and> source t' = source t"
  by (rule get_rel[where R = "\<lambda>a b. spec b = spec a \<and> source b = source a"])
     (simp_all add: set_handler_eq deleteProperty_eq)

lemma get_calls_prefix: "get n t p = Some (r, t') \<Longrightarrow> \<exists>ks. calls t' = calls t @ ks"
  by (rule get_rel[where R = "\<lambda>a b. \<exists>ks. calls b = calls a @ ks"])
     (auto simp: set_handler_eq deleteProperty_eq)

lemma get_distinct:
  "get n t p = Some (r, t') \<Longrightarrow> distinct (map fst (store t)) \<longrightarrow> distinct (map fst (store t'))"
  by (rule get_rel[where R = "\<lambda>a b. distinct (map fst (store a)) \<longrightarrow> distinct (map fst (store b))"])
     (simp_all add: set_handler_eq deleteProperty_eq distinct_obj_write distinct_obj_delete)

subsection \<open>Assignments, and the unfolding of the handlers on examples\<close>

lemmas handler_defs = mapping_def proxyFactory_def get_with_def obj_in_def obj_own_def obj_read_def
  obj_write_def obj_delete_def set_handler_def deleteProperty_def proxy_Set_def has_def
  ownKeys_def array_from_set_def set_add_def getOwnPropertyDescriptor_def assign_def this_read_def
  inherited_def object_prototype_names_def complete_def proxy_GetOwnProperty_def

lemmas keys_defs = obj_keys_def array_index_def index_rank_def digit_def

lemma assign_state: "snd (assign t p v) = snd (set_handler t p v)"
  by (cases "to_boolean v") (simp_all add: assign_def proxy_Set_def set_handler_eq)

lemma assign_truthy: "to_boolean v \<Longrightarrow> fst (assign t p v) = Inr v"
  by (simp add: assign_def proxy_Set_def set_handler_eq)

lemma assign_falsy: "\<not> to_boolean v \<Longrightarrow> fst (assign t p v) = Inl TypeError"
  by (simp add: assign_def proxy_Set_def set_handler_eq)

lemma not_in_array_from_set:
  "\<not> obj_own f sp \<Longrightarrow> \<not> obj_own f st \<Longrightarrow> f \<notin> set (array_from_set (obj_keys sp @ obj_keys st))"
  by (simp add: set_array_from_set obj_own_keys)

subsection \<open>Reachable states\<close>

lemma reachable_spec: "reachable sp src t \<Longrightarrow> spec t = sp \<and> source t = src"
proof (induction rule: reachable.induct)
  case reach_new
  show ?case by (simp add: mapping_def proxyFactory_def)
next
  case (reach_get t n p r t')
  then show ?case using get_spec by fastforce
next
  case (reach_set t p v)
  then show ?case by (simp add: set_handler_eq)
next
  case (reach_delete t p)
  then show ?case by (simp add: deleteProperty_eq)
qed

lemma reachable_distinct: "reachable sp src t \<Longrightarrow> distinct (map fst (store t))"
proof (induction rule: reachable.induct)
  case reach_new
  show ?case by (simp add: mapping_def proxyFactory_def)
next
  case (reach_get t n p r t')
  then show ?case using get_distinct by blast
next
  case (reach_set t p v)
  then show ?case by (simp add: set_handler_eq distinct_obj_write)
next
  case (reach_delete t p)
  then show ?case by (simp add: deleteProperty_eq distinct_obj_delete)
qed

lemma run_calls_prefix:
  assumes "run (get n) c t = Some (r, t')"
  shows "\<exists>ks. calls t' = calls t @ ks"
proof (rule run_rel[where R = "\<lambda>a b. \<exists>ks. calls b = calls a @ ks" and rd = "get n"])
  show "run (get n) c t = Some (r, t')" by (rule assms)
qed (auto simp: set_handler_eq deleteProperty_eq dest: get_calls_prefix)

subsection \<open>Store and tombstones\<close>

lemma keeps_disjoint_trans:
  "keeps_disjoint a b \<Longrightarrow> keeps_disjoint b c \<Longrightarrow> keeps_disjoint a c"
  by (auto simp: keeps_disjoint_def)

lemma keeps_disjoint_set: "keeps_disjoint t (snd (set_handler t k v))"
  using obj_keys_write[of "store t" k v] by (auto simp: keeps_disjoint_def set_handler_eq)

lemma run_keeps_disjoint:
  assumes rd: "\<And>t k r t'. spec t = sp \<Longrightarrow> rd t k = Some (r, t') \<Longrightarrow> keeps_disjoint t t'"
  shows "no_delete c \<Longrightarrow> spec t = sp \<Longrightarrow> run rd c t = Some (r, t') \<Longrightarrow> keeps_disjoint t t'"
proof (induction c arbitrary: t)
  case (Return x)
  then show ?case by (simp add: keeps_disjoint_def)
next
  case (Throw x)
  then show ?case by (simp add: keeps_disjoint_def)
next
  case (ThisGet k c)
  from ThisGet.prems obtain r1 t1 where g: "rd t k = Some (r1, t1)"
    and rest: "run rd (c r1) t1 = Some (r, t')"
    by (auto split: option.splits)
  from rd[OF ThisGet.prems(2) g] have k1: "keeps_disjoint t t1" .
  then have "spec t1 = sp" using ThisGet.prems(2) by (simp add: keeps_disjoint_def)
  moreover from ThisGet.prems(1) have "no_delete (c r1)" by simp
  ultimately have "keeps_disjoint t1 t'" using ThisGet.IH[OF rangeI] rest by blast
  with k1 show ?case by (rule keeps_disjoint_trans)
next
  case (ThisSet k v c)
  let ?t1 = "snd (set_handler t k v)"
  from ThisSet.prems(3) have rest: "run rd (c (to_boolean v)) ?t1 = Some (r, t')"
    by (simp add: proxy_Set_def set_handler_eq)
  have k1: "keeps_disjoint t ?t1" by (rule keeps_disjoint_set)
  have "spec ?t1 = sp" using ThisSet.prems(2) by (simp add: set_handler_eq)
  moreover from ThisSet.prems(1) have "no_delete (c (to_boolean v))" by simp
  ultimately have "keeps_disjoint ?t1 t'" using ThisSet.IH[OF rangeI] rest by blast
  with k1 show ?case by (rule keeps_disjoint_trans)
next
  case (ThisDelete k c)
  then show ?case by simp
next
  case (ThisHas k c)
  from ThisHas.prems have "no_delete (c (has t k))" "run rd (c (has t k)) t = Some (r, t')"
    by simp_all
  with ThisHas.IH[OF rangeI] ThisHas.prems(2) show ?case by blast
next
  case (ThisOwnKeys c)
  from ThisOwnKeys.prems have "no_delete (c (ownKeys t))" "run rd (c (ownKeys t)) t = Some (r, t')"
    by simp_all
  with ThisOwnKeys.IH[OF rangeI] ThisOwnKeys.prems(2) show ?case by blast
next
  case (ThisDescribe k c)
  from ThisDescribe.prems have "no_delete (c (proxy_GetOwnProperty t k))"
    "run rd (c (proxy_GetOwnProperty t k)) t = Some (r, t')"
    by simp_all
  with ThisDescribe.IH[OF rangeI] ThisDescribe.prems(2) show ?case by blast
qed

lemma never_deletesD: "never_deletes sp \<Longrightarrow> map_of sp p = Some fn \<Longrightarrow> no_delete (fn src)"
  by (auto simp: never_deletes_def dest: map_of_SomeD)

lemma get_keeps_disjoint:
  assumes nd: "never_deletes sp"
  shows "spec t = sp \<Longrightarrow> get n t p = Some (r, t') \<Longrightarrow> keeps_disjoint t t'"
proof (induction n arbitrary: t p r t')
  case 0
  from "0.prems"(2) show ?case
    by (cases rule: get_cases) (simp_all add: keeps_disjoint_def)
next
  case (Suc n)
  from Suc.prems(2) show ?case
  proof (cases rule: get_cases)
    case same
    then show ?thesis by (simp add: keeps_disjoint_def)
  next
    case (raised m fn e)
    let ?t0 = "t\<lparr>calls := calls t @ [p]\<rparr>"
    from raised(1) have m: "m = n" by simp
    have "keeps_disjoint ?t0 t'"
    proof (rule run_keeps_disjoint[where rd = "get n" and sp = sp])
      show "no_delete (fn (source t))"
        using nd raised(4) Suc.prems(1) by (auto intro: never_deletesD)
      show "spec ?t0 = sp" using Suc.prems(1) by simp
      show "run (get n) (fn (source t)) ?t0 = Some (Inl e, t')" using raised(6) m by simp
    qed (rule Suc.IH)
    then show ?thesis by (simp add: keeps_disjoint_def)
  next
    case (computed m fn v t1)
    let ?t0 = "t\<lparr>calls := calls t @ [p]\<rparr>"
    from computed(1) have m: "m = n" by simp
    have "keeps_disjoint ?t0 t1"
    proof (rule run_keeps_disjoint[where rd = "get n" and sp = sp])
      show "no_delete (fn (source t))"
        using nd computed(4) Suc.prems(1) by (auto intro: never_deletesD)
      show "spec ?t0 = sp" using Suc.prems(1) by simp
      show "run (get n) (fn (source t)) ?t0 = Some (Inr v, t1)" using computed(6) m by simp
    qed (rule Suc.IH)
    with computed(2,7) obj_keys_write[of "store t1" p v] show ?thesis
      by (auto simp: keeps_disjoint_def)
  qed
qed

subsection \<open>More levels of nesting change no result\<close>

lemma run_mono:
  assumes "\<And>t k x. rd t k = Some x \<Longrightarrow> rd' t k = Some x"
  shows "run rd c t = Some x \<Longrightarrow> run rd' c t = Some x"
proof (induction c arbitrary: t)
  case (ThisGet k c)
  from ThisGet.prems obtain r1 t1 where g: "rd t k = Some (r1, t1)"
    and rest: "run rd (c r1) t1 = Some x"
    by (auto split: option.splits)
  from assms[OF g] ThisGet.IH[OF rangeI rest] show ?case by simp
next
  case (ThisSet k v c)
  then show ?case by (auto split: prod.splits intro: rangeI)
next
  case (ThisDelete k c)
  then show ?case by (auto split: prod.splits intro: rangeI)
qed (auto intro: rangeI)

lemma get_with_mono:
  assumes "\<And>c t x. call c t = Some x \<Longrightarrow> call' c t = Some x"
    and "get_with call t p = Some x"
  shows "get_with call' t p = Some x"
proof (cases "p \<notin> deletedKeys t \<and> \<not> obj_in p (store t) \<and> obj_in p (spec t)")
  case False
  with assms(2) show ?thesis
    by (auto simp: get_with_def)
next
  case True
  then have "map_of (spec t) p \<noteq> None" using in_spec_not_in_store by blast
  then obtain fn where fn: "map_of (spec t) p = Some fn" by auto
  let ?t0 = "t\<lparr>calls := calls t @ [p]\<rparr>"
  from True fn assms(2) obtain y where y: "call (fn (source t)) ?t0 = Some y"
    by (auto simp: get_with_def split: option.splits)
  from assms(1)[OF y] y True fn assms(2) show ?thesis
    by (simp add: get_with_def)
qed

lemma get_fuel_Suc:
  fixes t :: "'s ProxyTarget"
  shows "get n t p = Some x \<Longrightarrow> get (Suc n) t p = Some x"
proof (induction n arbitrary: t p x)
  case 0
  then show ?case by (auto elim!: get_with_mono[rotated])
next
  case (Suc n)
  have "get_with (run (get (Suc n))) t p = Some x"
  proof (rule get_with_mono[where call = "run (get n)"])
    show "get_with (run (get n)) t p = Some x" using Suc.prems by simp
  next
    fix c and s :: "'s ProxyTarget" and y
    assume r: "run (get n) c s = Some y"
    have step: "get n u k = Some z \<Longrightarrow> get (Suc n) u k = Some z" 
      for u :: "'s ProxyTarget" and k z
      by (rule Suc.IH)
    from run_mono[of "get n" "get (Suc n)", OF step r]
    show "run (get (Suc n)) c s = Some y" .
  qed
  then show ?case by simp
qed

lemma get_fuel_mono: "get n t p = Some x \<Longrightarrow> n \<le> m \<Longrightarrow> get m t p = Some x"
proof (induction m)
  case 0
  then show ?case by simp
next
  case (Suc m)
  show ?case
  proof (cases "n = Suc m")
    case True
    with Suc.prems show ?thesis by simp
  next
    case False
    with Suc.prems have "n \<le> m" by simp
    from Suc.IH[OF Suc.prems(1) this] show ?thesis by (rule get_fuel_Suc)
  qed
qed

subsection \<open>Counting the calls of one compute function\<close>

lemma keeps_count_trans:
  "keeps_count f a b \<Longrightarrow> keeps_count f b c \<Longrightarrow> keeps_count f a c"
  by (simp add: keeps_count_def)

lemma run_keeps_count:
  assumes rd: "\<And>t k r t'. spec t = sp \<Longrightarrow> k \<in> K \<Longrightarrow> rd t k = Some (r, t') \<Longrightarrow> keeps_count f t t'"
  shows "reads_only K c \<Longrightarrow> spec t = sp \<Longrightarrow> run rd c t = Some (r, t') \<Longrightarrow> keeps_count f t t'"
proof (induction c arbitrary: t)
  case (Return x)
  then show ?case by (simp add: keeps_count_def)
next
  case (Throw x)
  then show ?case by (simp add: keeps_count_def)
next
  case (ThisGet k c)
  from ThisGet.prems obtain r1 t1 where g: "rd t k = Some (r1, t1)"
    and rest: "run rd (c r1) t1 = Some (r, t')"
    by (auto split: option.splits)
  from ThisGet.prems(1) have kK: "k \<in> K" and nr: "reads_only K (c r1)" by simp_all
  from rd[OF ThisGet.prems(2) kK g] have k1: "keeps_count f t t1" .
  then have "spec t1 = sp" using ThisGet.prems(2) by (simp add: keeps_count_def)
  with nr have "keeps_count f t1 t'" using ThisGet.IH[OF rangeI] rest by blast
  with k1 show ?case by (rule keeps_count_trans)
next
  case (ThisSet k v c)
  let ?t1 = "snd (set_handler t k v)"
  from ThisSet.prems(3) have rest: "run rd (c (to_boolean v)) ?t1 = Some (r, t')"
    by (simp add: proxy_Set_def set_handler_eq)
  have k1: "keeps_count f t ?t1" by (simp add: keeps_count_def set_handler_eq)
  have "spec ?t1 = sp" using ThisSet.prems(2) by (simp add: set_handler_eq)
  moreover from ThisSet.prems(1) have "reads_only K (c (to_boolean v))" by simp
  ultimately have "keeps_count f ?t1 t'" using ThisSet.IH[OF rangeI] rest by blast
  with k1 show ?case by (rule keeps_count_trans)
next
  case (ThisDelete k c)
  let ?t1 = "snd (deleteProperty t k)"
  from ThisDelete.prems(3) have rest: "run rd (c True) ?t1 = Some (r, t')"
    by (simp add: deleteProperty_eq)
  have k1: "keeps_count f t ?t1" by (simp add: keeps_count_def deleteProperty_eq)
  have "spec ?t1 = sp" using ThisDelete.prems(2) by (simp add: deleteProperty_eq)
  moreover from ThisDelete.prems(1) have "reads_only K (c True)" by simp
  ultimately have "keeps_count f ?t1 t'" using ThisDelete.IH[OF rangeI] rest by blast
  with k1 show ?case by (rule keeps_count_trans)
next
  case (ThisHas k c)
  from ThisHas.prems have "reads_only K (c (has t k))" "run rd (c (has t k)) t = Some (r, t')"
    by simp_all
  with ThisHas.IH[OF rangeI] ThisHas.prems(2) show ?case by blast
next
  case (ThisOwnKeys c)
  from ThisOwnKeys.prems have "reads_only K (c (ownKeys t))" "run rd (c (ownKeys t)) t = Some (r, t')"
    by simp_all
  with ThisOwnKeys.IH[OF rangeI] ThisOwnKeys.prems(2) show ?case by blast
next
  case (ThisDescribe k c)
  from ThisDescribe.prems have "reads_only K (c (proxy_GetOwnProperty t k))"
    "run rd (c (proxy_GetOwnProperty t k)) t = Some (r, t')"
    by simp_all
  with ThisDescribe.IH[OF rangeI] ThisDescribe.prems(2) show ?case by blast
qed

lemma closed_readsD:
  "closed_reads sp K \<Longrightarrow> p \<in> K \<Longrightarrow> map_of sp p = Some fn \<Longrightarrow> reads_only K (fn src)"
  by (auto simp: closed_reads_def dest: map_of_SomeD)

lemma get_keeps_count:
  assumes cl: "closed_reads sp K" and fK: "f \<notin> K"
  shows "spec t = sp \<Longrightarrow> p \<in> K \<Longrightarrow> get n t p = Some (r, t') \<Longrightarrow> keeps_count f t t'"
proof (induction n arbitrary: t p r t')
  case 0
  from "0.prems"(3) show ?case
    by (cases rule: get_cases) (simp_all add: keeps_count_def)
next
  case (Suc n)
  from Suc.prems(2) fK have pf: "p \<noteq> f" by auto
  from Suc.prems(3) show ?case
  proof (cases rule: get_cases)
    case same
    then show ?thesis by (simp add: keeps_count_def)
  next
    case (raised m fn e)
    let ?t0 = "t\<lparr>calls := calls t @ [p]\<rparr>"
    from raised(1) have m: "m = n" by simp
    have "keeps_count f ?t0 t'"
    proof (rule run_keeps_count[where rd = "get n" and sp = sp and K = K])
      show "reads_only K (fn (source t))"
        using cl Suc.prems(2) raised(4) Suc.prems(1) by (auto intro: closed_readsD)
      show "spec ?t0 = sp" using Suc.prems(1) by simp
      show "run (get n) (fn (source t)) ?t0 = Some (Inl e, t')" using raised(6) m by simp
    qed (rule Suc.IH)
    with pf show ?thesis by (simp add: keeps_count_def)
  next
    case (computed m fn v t1)
    let ?t0 = "t\<lparr>calls := calls t @ [p]\<rparr>"
    from computed(1) have m: "m = n" by simp
    have "keeps_count f ?t0 t1"
    proof (rule run_keeps_count[where rd = "get n" and sp = sp and K = K])
      show "reads_only K (fn (source t))"
        using cl Suc.prems(2) computed(4) Suc.prems(1) by (auto intro: closed_readsD)
      show "spec ?t0 = sp" using Suc.prems(1) by simp
      show "run (get n) (fn (source t)) ?t0 = Some (Inr v, t1)" using computed(6) m by simp
    qed (rule Suc.IH)
    with pf computed(7) show ?thesis by (simp add: keeps_count_def)
  qed
qed

lemma get_counts_once:
  assumes cl: "closed_reads (spec t) K" and fK: "f \<notin> K"
    and unset: "f \<notin> deletedKeys t" "\<not> obj_in f (store t)" "map_of (spec t) f = Some fn"
    and body: "reads_only K (fn (source t))"
    and g: "get n t f = Some (r, t')"
  shows "count_list (calls t') f = Suc (count_list (calls t) f)"
  using g
proof (cases rule: get_cases)
  case same
  with unset show ?thesis by (simp add: obj_in_def obj_own_def)
next
  case (raised m fn' e)
  let ?t0 = "t\<lparr>calls := calls t @ [f]\<rparr>"
  from raised(4) unset(3) have fn': "fn' = fn" by simp
  have "keeps_count f ?t0 t'"
  proof (rule run_keeps_count[where rd = "get m" and sp = "spec t" and K = K])
    show "reads_only K (fn (source t))" by (rule body)
    show "spec ?t0 = spec t" by simp
    show "run (get m) (fn (source t)) ?t0 = Some (Inl e, t')" using raised(6) fn' by simp
  qed (rule get_keeps_count[OF cl fK])
  then show ?thesis by (simp add: keeps_count_def)
next
  case (computed m fn' v t1)
  let ?t0 = "t\<lparr>calls := calls t @ [f]\<rparr>"
  from computed(4) unset(3) have fn': "fn' = fn" by simp
  have "keeps_count f ?t0 t1"
  proof (rule run_keeps_count[where rd = "get m" and sp = "spec t" and K = K])
    show "reads_only K (fn (source t))" by (rule body)
    show "spec ?t0 = spec t" by simp
    show "run (get m) (fn (source t)) ?t0 = Some (Inr v, t1)" using computed(6) fn' by simp
  qed (rule get_keeps_count[OF cl fK])
  with computed(7) show ?thesis by (simp add: keeps_count_def)
qed

subsection \<open>Settled fields are never computed\<close>

lemma keeps_settled_refl: "keeps_settled f t t"
  by (simp add: keeps_settled_def)

lemma keeps_settled_trans:
  "keeps_settled f a b \<Longrightarrow> keeps_settled f b c \<Longrightarrow> keeps_settled f a c"
  by (auto simp: keeps_settled_def)

lemma keeps_settled_set: "keeps_settled f t (snd (set_handler t k v))"
  by (auto simp: keeps_settled_def settled_def set_handler_eq obj_in_write)

lemma keeps_settled_delete: "keeps_settled f t (snd (deleteProperty t k))"
  by (auto simp: keeps_settled_def settled_def deleteProperty_eq obj_in_def obj_own_delete)

lemma run_keeps_settled:
  assumes rd: "\<And>t k r t'. rd t k = Some (r, t') \<Longrightarrow> keeps_settled f t t'"
  shows "run rd c t = Some (r, t') \<Longrightarrow> keeps_settled f t t'"
  by (rule run_rel[where R = "keeps_settled f" and rd = rd])
     (use rd keeps_settled_refl keeps_settled_trans keeps_settled_set keeps_settled_delete
      in blast)+

lemma get_keeps_settled:
  "get n t p = Some (r, t') \<Longrightarrow> keeps_settled f t t'"
proof (induction n arbitrary: t p r t')
  case 0
  from "0.prems" show ?case
    by (cases rule: get_cases) (simp_all add: keeps_settled_def)
next
  case (Suc n)
  from Suc.prems show ?case
  proof (cases rule: get_cases)
    case same
    then show ?thesis by (simp add: keeps_settled_def)
  next
    case (raised m fn e)
    let ?t0 = "t\<lparr>calls := calls t @ [p]\<rparr>"
    from raised(1) have m: "m = n" by simp
    have k0: "keeps_settled f ?t0 t'"
    proof (rule run_keeps_settled[where rd = "get n"])
      show "run (get n) (fn (source t)) ?t0 = Some (Inl e, t')" using raised(6) m by simp
    qed (rule Suc.IH)
    have "p \<noteq> f" if "settled f t"
      using that raised(2,3,4) by (auto simp: settled_def obj_in_def obj_own_def)
    with k0 show ?thesis by (auto simp: keeps_settled_def settled_def)
  next
    case (computed m fn v t1)
    let ?t0 = "t\<lparr>calls := calls t @ [p]\<rparr>"
    from computed(1) have m: "m = n" by simp
    have k0: "keeps_settled f ?t0 t1"
    proof (rule run_keeps_settled[where rd = "get n"])
      show "run (get n) (fn (source t)) ?t0 = Some (Inr v, t1)" using computed(6) m by simp
    qed (rule Suc.IH)
    have "p \<noteq> f" if "settled f t"
      using that computed(2,3,4) by (auto simp: settled_def obj_in_def obj_own_def)
    with k0 computed(7) show ?thesis
      by (auto simp: keeps_settled_def settled_def obj_in_write)
  qed
qed

lemma evolves_keeps_settled: "evolves t t' \<Longrightarrow> keeps_settled f t t'"
proof (induction rule: evolves.induct)
  case ev_start
  show ?case by (rule keeps_settled_refl)
next
  case (ev_get t1 n p r t2)
  from ev_get.IH get_keeps_settled[OF ev_get.hyps(2)] show ?case
    by (rule keeps_settled_trans)
next
  case (ev_set t1 p v)
  from ev_set.IH keeps_settled_set show ?case by (rule keeps_settled_trans)
next
  case (ev_delete t1 p)
  from ev_delete.IH keeps_settled_delete show ?case by (rule keeps_settled_trans)
qed

lemma settled_never_computed:
  "evolves t t' \<Longrightarrow> settled f t \<Longrightarrow> count_list (calls t') f = count_list (calls t) f"
  using evolves_keeps_settled[of t t' f] by (simp add: keeps_settled_def)

lemma get_settles:
  assumes "get n t f = Some (Inr v, t')"
  shows "settled f t'"
  using assms
proof (cases rule: get_cases)
  case same
  then show ?thesis by (simp add: settled_def)
next
  case (raised m fn e)
  then show ?thesis by simp
next
  case (computed m fn w t1)
  then show ?thesis by (simp add: settled_def obj_in_write)
qed

section \<open>The claims\<close>

text \<open>
  C1, as amended. For every field name \<open>f\<close>, specification key or not: \<open>delete(f)\<close>
  removes the value that the store holds for \<open>f\<close> (the memoized value, if there is one)
  and tombstones the name, and it invokes no compute function. After it, a read of \<open>f\<close>
  returns undefined, invokes no compute function (the log of compute calls is the one
  before the deletion) and leaves the tombstone in place, however often it is
  repeated: the deletion does not return the field to the compute-eligible state. More
  than that: whatever is done to the record after the deletion, reads, writes and
  deletions of any fields, the compute function of \<open>f\<close> is not invoked again.
\<close>

theorem delete_suppresses_compute:
  "f \<in> deletedKeys (snd (deleteProperty t f)) \<and>
   \<not> obj_own f (store (snd (deleteProperty t f))) \<and>
   calls (snd (deleteProperty t f)) = calls t \<and>
   get n (snd (deleteProperty t f)) f
     = Some (Inr (Value VUndefined), snd (deleteProperty t f)) \<and>
   (\<forall>r t'. get n (snd (deleteProperty t f)) f = Some (r, t') \<longrightarrow>
      calls t' = calls t \<and> f \<in> deletedKeys t' \<and> \<not> obj_own f (store t')) \<and>
   (\<forall>t'. evolves (snd (deleteProperty t f)) t' \<longrightarrow>
      count_list (calls t') f = count_list (calls t) f)"
proof -
  let ?d = "snd (deleteProperty t f)"
  have a: "f \<in> deletedKeys ?d" "\<not> obj_own f (store ?d)" "calls ?d = calls t"
    by (simp_all add: deleteProperty_eq obj_own_delete)
  have g: "get n ?d f = Some (Inr (Value VUndefined), ?d)"
    by (simp add: deleteProperty_eq get_tombstoned)
  have "settled f ?d" using a(1) by (simp add: settled_def)
  then have "count_list (calls t') f = count_list (calls t) f" if "evolves ?d t'" for t'
    using settled_never_computed[OF that] a(3) by simp
  with a g show ?thesis by simp
qed

theorem delete_suppresses_compute_witness:
  "get 1 (mapping const_spec ()) ''f''
     = Some (Inr (Value (VNum 1)),
         \<lparr>spec = const_spec, source = (), store = [(''f'', VNum 1)], deletedKeys = {}, calls = [''f'']\<rparr>) \<and>
   obj_own ''f'' (store
       \<lparr>spec = const_spec, source = (), store = [(''f'', VNum 1)], deletedKeys = {}, calls = [''f'']\<rparr>) \<and>
   store (snd (deleteProperty
       \<lparr>spec = const_spec, source = (), store = [(''f'', VNum 1)], deletedKeys = {}, calls = [''f'']\<rparr> ''f'')) = [] \<and>
   get 1 (snd (deleteProperty
       \<lparr>spec = const_spec, source = (), store = [(''f'', VNum 1)], deletedKeys = {}, calls = [''f'']\<rparr> ''f'')) ''f''
     = Some (Inr (Value VUndefined),
         \<lparr>spec = const_spec, source = (), store = [], deletedKeys = {''f''}, calls = [''f'']\<rparr>) \<and>
   evolves (snd (deleteProperty
       \<lparr>spec = const_spec, source = (), store = [(''f'', VNum 1)], deletedKeys = {}, calls = [''f'']\<rparr> ''f''))
     \<lparr>spec = const_spec, source = (), store = [], deletedKeys = {''f''}, calls = [''f'']\<rparr> \<and>
   count_list (calls
       \<lparr>spec = const_spec, source = (), store = [], deletedKeys = {''f''}, calls = [''f'']\<rparr>) ''f'' = 1"
proof -
  let ?t1 = "\<lparr>spec = const_spec, source = (), store = [(''f'', VNum 1)], deletedKeys = {},
      calls = [''f'']\<rparr>"
  let ?t2 = "\<lparr>spec = const_spec, source = (), store = [], deletedKeys = {''f''},
      calls = [''f'']\<rparr>"
  have g1: "get 1 (mapping const_spec ()) ''f'' = Some (Inr (Value (VNum 1)), ?t1)"
    by (simp add: handler_defs const_spec_def)
  have g2: "get 1 (snd (deleteProperty ?t1 ''f'')) ''f'' = Some (Inr (Value VUndefined), ?t2)"
    by (simp add: handler_defs)
  have ev: "evolves (snd (deleteProperty ?t1 ''f'')) ?t2"
    by (rule ev_get[OF ev_start g2])
  show ?thesis
    using g1 g2 ev delete_suppresses_compute[of "''f''" ?t1 1]
    by (simp add: handler_defs)
qed

text \<open>
  The claim as written fails on \<^verbatim>\<open>{ f: src => 1 }\<close>: the first read computes and memoizes
  1 (one compute call); after \<open>delete(f)\<close> the next read returns undefined and the log
  still holds that one call.
\<close>

theorem delete_reinvokes_counterexample:
  "get 1 (mapping const_spec ()) ''f''
     = Some (Inr (Value (VNum 1)),
         \<lparr>spec = const_spec, source = (), store = [(''f'', VNum 1)], deletedKeys = {}, calls = [''f'']\<rparr>) \<and>
   deleteProperty
       \<lparr>spec = const_spec, source = (), store = [(''f'', VNum 1)], deletedKeys = {}, calls = [''f'']\<rparr> ''f''
     = (True, \<lparr>spec = const_spec, source = (), store = [], deletedKeys = {''f''}, calls = [''f'']\<rparr>) \<and>
   get 1 \<lparr>spec = const_spec, source = (), store = [], deletedKeys = {''f''}, calls = [''f'']\<rparr> ''f''
     = Some (Inr (Value VUndefined),
         \<lparr>spec = const_spec, source = (), store = [], deletedKeys = {''f''}, calls = [''f'']\<rparr>)"
  by (simp add: handler_defs const_spec_def)

text \<open>
  C2. The claim is that \<open>set(f, v)\<close> never signals an error, for the falsy values 0, the
  empty string, false and undefined too. The code does otherwise: the \<^verbatim>\<open>set\<close> handler
  returns the assigned value, and the Proxy takes what a \<^verbatim>\<open>set\<close> trap returns as the
  success flag of the assignment. For each of these values the flag is false, and the
  strict-mode assignment \<^verbatim>\<open>record.count = 0\<close> raises a TypeError, after the value has
  been written; an assignment of 7 succeeds.
\<close>

theorem assign_falsy_raises:
  "assign (mapping const_spec ()) ''count'' (VNum 0)
     = (Inl TypeError,
        \<lparr>spec = const_spec, source = (), store = [(''count'', VNum 0)], deletedKeys = {}, calls = []\<rparr>) \<and>
   fst (assign (mapping const_spec ()) ''count'' (VStr [])) = Inl TypeError \<and>
   fst (assign (mapping const_spec ()) ''count'' (VBool False)) = Inl TypeError \<and>
   fst (assign (mapping const_spec ()) ''count'' VUndefined) = Inl TypeError \<and>
   fst (assign (mapping const_spec ()) ''count'' (VNum 7)) = Inr (VNum 7)"
  by (simp add: handler_defs)

text \<open>
  C3, as amended. For every field \<open>f\<close>: when a read of \<open>f\<close> returns a value (does not
  raise) and leaves \<open>f\<close> without a tombstone, a read of \<open>f\<close> that follows it returns the
  same value and leaves the record as it is, the log of compute calls included: the
  second read invokes no compute function. When \<open>f\<close> is a key of the specification
  that is neither in the store (own or inherited from \<^verbatim>\<open>Object.prototype\<close>) nor
  tombstoned, and the compute function of \<open>f\<close> cannot lead back to a read of \<open>f\<close> (it
  reads only fields of a set \<open>K\<close> that is closed under reading and does not contain
  \<open>f\<close>), then the first read invokes the compute function of \<open>f\<close> exactly once, so the
  two reads invoke it exactly once. Once a read of \<open>f\<close> has returned a value, or \<open>f\<close> is
  in the store (memoized by a read of \<open>f\<close> or of a field that reads \<open>f\<close>, or assigned),
  nothing that is done to the record afterwards, reads, writes and deletions of any
  fields, \<open>f\<close> included, invokes the compute function of \<open>f\<close> again. A read of a field
  that is in the store and not tombstoned returns what the store has and invokes
  nothing. A compute function that returns \<open>w\<close> without using the record makes the
  first read return \<open>w\<close>, and the second.
\<close>

theorem get_memoizes:
  fixes t :: "'s ProxyTarget"
  shows "(get n t f = Some (Inr v, t') \<and> f \<notin> deletedKeys t' \<longrightarrow>
      get m t' f = Some (Inr v, t')) \<and>
   (get n t f = Some (r, t') \<and> f \<notin> deletedKeys t \<and> \<not> obj_in f (store t) \<and>
      map_of (spec t) f = Some fn \<and> reads_only K (fn (source t)) \<and>
      closed_reads (spec t) K \<and> f \<notin> K \<longrightarrow>
      count_list (calls t') f = Suc (count_list (calls t) f)) \<and>
   ((get n t f = Some (Inr v, t') \<or> obj_in f (store t')) \<and> evolves t' t'' \<longrightarrow>
      count_list (calls t'') f = count_list (calls t') f) \<and>
   (f \<notin> deletedKeys t \<and> obj_in f (store t) \<longrightarrow>
      get m t f = Some (Inr (obj_read (store t) f), t)) \<and>
   (f \<notin> deletedKeys t \<and> \<not> obj_in f (store t) \<and> map_of (spec t) f = Some fn \<and>
      fn (source t) = Return w \<longrightarrow>
      get (Suc n) t f
        = Some (Inr (Value w), t\<lparr>calls := calls t @ [f], store := obj_write (store t) f w\<rparr>) \<and>
      get m (t\<lparr>calls := calls t @ [f], store := obj_write (store t) f w\<rparr>) f
        = Some (Inr (Value w), t\<lparr>calls := calls t @ [f], store := obj_write (store t) f w\<rparr>))"
proof -
  have again: "get m s' f = Some (Inr x, s')"
    if g: "get k s f = Some (Inr x, s')" and live: "f \<notin> deletedKeys s'"
    for k x and s s' :: "'s ProxyTarget"
    using g
  proof (cases rule: get_cases)
    case same
    with live have nd: "f \<notin> deletedKeys s" by simp
    from same(3) nd have "get m s f = get k s f"
      using get_stored[OF nd, of m] get_stored[OF nd, of k]
        get_unknown[OF nd, of m] get_unknown[OF nd, of k]
      by auto
    with g same(1) show ?thesis by simp
  next
    case (raised j fn e)
    then show ?thesis by simp
  next
    case (computed j fn u t1)
    from computed(5) have x: "x = Value u" by simp
    from computed(3) have np: "f \<noteq> ''__proto__''" by (simp add: not_in_store)
    from computed(7) live have nd: "f \<notin> deletedKeys s'" and st: "obj_in f (store s')"
      by (simp_all add: obj_in_write)
    have "get m s' f = Some (Inr (obj_read (store s') f), s')"
      using nd st by (rule get_stored)
    moreover have "obj_read (store s') f = x"
      using computed(7) x np by (simp add: obj_read_write_same)
    ultimately show ?thesis by simp
  qed
  have once: "count_list (calls t') f = Suc (count_list (calls t) f)"
    if "get n t f = Some (r, t')" "f \<notin> deletedKeys t" "\<not> obj_in f (store t)"
      "map_of (spec t) f = Some fn" "reads_only K (fn (source t))"
      "closed_reads (spec t) K" "f \<notin> K"
    using get_counts_once[OF that(6,7,2,3,4,5,1)] .
  have never: "count_list (calls t'') f = count_list (calls t') f"
    if "get n t f = Some (Inr v, t') \<or> obj_in f (store t')" "evolves t' t''"
  proof -
    from that(1) have "settled f t'"
      using get_settles[of n t f v t'] by (auto simp: settled_def)
    with that(2) show ?thesis by (rule settled_never_computed)
  qed
  have stored: "get m t f = Some (Inr (obj_read (store t) f), t)"
    if "f \<notin> deletedKeys t" "obj_in f (store t)"
    using that by (rule get_stored)
  let ?t2 = "t\<lparr>calls := calls t @ [f], store := obj_write (store t) f w\<rparr>"
  have plain: "get (Suc n) t f = Some (Inr (Value w), ?t2) \<and> get m ?t2 f = Some (Inr (Value w), ?t2)"
    if h: "f \<notin> deletedKeys t" "\<not> obj_in f (store t)" "map_of (spec t) f = Some fn"
      "fn (source t) = Return w"
  proof -
    have first: "get (Suc n) t f = Some (Inr (Value w), ?t2)"
      using h by (simp add: get_compute del: get.simps)
    have "f \<notin> deletedKeys ?t2" using h(1) by simp
    from again[OF first this] first show ?thesis by simp
  qed
  from again[of n t v t'] once never stored plain show ?thesis by blast
qed

theorem get_memoizes_witness:
  "get 2 (mapping person_spec ()) ''contactInfo''
     = Some (Inr (Value (VStr ''Lando Calrissian 555-123-1234'')),
         \<lparr>spec = person_spec, source = (),
          store = [(''name'', VStr ''Lando Calrissian''), (''phone'', VStr ''555-123-1234''),
                   (''contactInfo'', VStr ''Lando Calrissian 555-123-1234'')],
          deletedKeys = {}, calls = [''contactInfo'', ''name'', ''phone'']\<rparr>) \<and>
   get 0 \<lparr>spec = person_spec, source = (),
          store = [(''name'', VStr ''Lando Calrissian''), (''phone'', VStr ''555-123-1234''),
                   (''contactInfo'', VStr ''Lando Calrissian 555-123-1234'')],
          deletedKeys = {}, calls = [''contactInfo'', ''name'', ''phone'']\<rparr> ''contactInfo''
     = Some (Inr (Value (VStr ''Lando Calrissian 555-123-1234'')),
         \<lparr>spec = person_spec, source = (),
          store = [(''name'', VStr ''Lando Calrissian''), (''phone'', VStr ''555-123-1234''),
                   (''contactInfo'', VStr ''Lando Calrissian 555-123-1234'')],
          deletedKeys = {}, calls = [''contactInfo'', ''name'', ''phone'']\<rparr>) \<and>
   closed_reads person_spec {''name'', ''phone''} \<and>
   reads_only {''name'', ''phone''} (the (map_of person_spec ''contactInfo'') ()) \<and>
   \<not> obj_in ''contactInfo'' (store (mapping person_spec ())) \<and>
   count_list [''contactInfo'', ''name'', ''phone''] ''contactInfo''
     = Suc (count_list (calls (mapping person_spec ())) ''contactInfo'') \<and>
   evolves \<lparr>spec = person_spec, source = (),
          store = [(''name'', VStr ''Lando Calrissian''), (''phone'', VStr ''555-123-1234''),
                   (''contactInfo'', VStr ''Lando Calrissian 555-123-1234'')],
          deletedKeys = {}, calls = [''contactInfo'', ''name'', ''phone'']\<rparr>
      (snd (deleteProperty \<lparr>spec = person_spec, source = (),
          store = [(''name'', VStr ''Lando Calrissian''), (''phone'', VStr ''555-123-1234''),
                   (''contactInfo'', VStr ''Lando Calrissian 555-123-1234'')],
          deletedKeys = {}, calls = [''contactInfo'', ''name'', ''phone'']\<rparr> ''contactInfo''))"
proof -
  let ?v = "Value (VStr ''Lando Calrissian 555-123-1234'')"
  let ?t1 = "\<lparr>spec = person_spec, source = (),
          store = [(''name'', VStr ''Lando Calrissian''), (''phone'', VStr ''555-123-1234''),
                   (''contactInfo'', VStr ''Lando Calrissian 555-123-1234'')],
          deletedKeys = {}, calls = [''contactInfo'', ''name'', ''phone'']\<rparr>"
  have g: "get 2 (mapping person_spec ()) ''contactInfo'' = Some (Inr ?v, ?t1)"
    by (simp add: handler_defs person_spec_def numeral_2_eq_2)
  have cl: "closed_reads person_spec {''name'', ''phone''}"
    by (simp add: closed_reads_def person_spec_def)
  have ro: "reads_only {''name'', ''phone''} (the (map_of person_spec ''contactInfo'') ())"
    by (simp add: person_spec_def this_read_def split: sum.split got.split val.split)
  have ev: "evolves ?t1 (snd (deleteProperty ?t1 ''contactInfo''))"
    by (rule ev_delete[OF ev_start])
  show ?thesis
    using g cl ro ev
      get_memoizes[where n = 2 and t = "mapping person_spec ()" and f = "''contactInfo''"
        and v = ?v and t' = ?t1 and m = 0 and r = "Inr ?v"
        and fn = "the (map_of person_spec ''contactInfo'')" and K = "{''name'', ''phone''}"
        and t'' = "snd (deleteProperty ?t1 ''contactInfo'')"]
    by (simp add: handler_defs person_spec_def)
qed

text \<open>
  The claim as written fails on \<^verbatim>\<open>{ f: src => { throw 'boom' } }\<close>: two reads of \<open>f\<close> in
  succession, with no write or deletion between them, both raise, and the compute
  function has run twice. It fails on \<^verbatim>\<open>{ f() { delete this.f; return 1 } }\<close>, whose first
  read returns 1 and whose second read returns undefined; on a compute function that
  reads its own field once before it answers, which a single read of \<open>f\<close> invokes
  twice; and on \<^verbatim>\<open>{ toString: src => 'x' }\<close>, whose field is in the empty store by
  inheritance, so that two reads return the built-in function and invoke nothing.
\<close>

theorem get_twice_counterexample:
  "get 1 (mapping throwing_spec ()) ''f''
     = Some (Inl (Value (VStr ''boom'')),
         \<lparr>spec = throwing_spec, source = (), store = [], deletedKeys = {}, calls = [''f'']\<rparr>) \<and>
   get 1 \<lparr>spec = throwing_spec, source = (), store = [], deletedKeys = {}, calls = [''f'']\<rparr> ''f''
     = Some (Inl (Value (VStr ''boom'')),
         \<lparr>spec = throwing_spec, source = (), store = [], deletedKeys = {}, calls = [''f'', ''f'']\<rparr>) \<and>
   get 1 (mapping self_deleting_spec ()) ''f''
     = Some (Inr (Value (VNum 1)),
         \<lparr>spec = self_deleting_spec, source = (), store = [(''f'', VNum 1)],
          deletedKeys = {''f''}, calls = [''f'']\<rparr>) \<and>
   get 1 \<lparr>spec = self_deleting_spec, source = (), store = [(''f'', VNum 1)],
          deletedKeys = {''f''}, calls = [''f'']\<rparr> ''f''
     = Some (Inr (Value VUndefined),
         \<lparr>spec = self_deleting_spec, source = (), store = [(''f'', VNum 1)],
          deletedKeys = {''f''}, calls = [''f'']\<rparr>) \<and>
   get 2 (mapping reentrant_spec ()) ''f''
     = Some (Inr (Value (VNum 2)),
         \<lparr>spec = reentrant_spec, source = (),
          store = [(''busy'', VBool True), (''f'', VNum 2)],
          deletedKeys = {}, calls = [''f'', ''f'']\<rparr>) \<and>
   get 1 (mapping shadowed_spec ()) ''toString''
     = Some (Inr (Builtin ''toString''),
         \<lparr>spec = shadowed_spec, source = (), store = [], deletedKeys = {}, calls = []\<rparr>)"
  by (simp add: handler_defs throwing_spec_def self_deleting_spec_def reentrant_spec_def
      shadowed_spec_def numeral_2_eq_2)

text \<open>
  C4, as amended. Constructing the factory and constructing a record invoke no compute
  function: the fresh record's log of compute calls is empty. A read of a field \<open>g\<close>
  invokes nothing when \<open>g\<close> is tombstoned, in the store or not in the specification, and
  otherwise invokes the compute function of \<open>g\<close> first: every other invocation follows
  inside it, made by the reads that the body performs on the record. The read of \<open>g\<close>
  does not invoke the compute function of \<open>f\<close> when \<open>f\<close> cannot be reached from \<open>g\<close>
  through reads (\<open>g\<close> is in a set \<open>K\<close> of fields that is closed under reading and does not
  contain \<open>f\<close>), and also when \<open>f\<close> is tombstoned, in the store or not in the
  specification.
\<close>

theorem get_invokes_only_what_is_read:
  "calls (mapping sp src) = [] \<and>
   (get n t g = Some (r, t') \<longrightarrow>
      (g \<in> deletedKeys t \<or> obj_in g (store t) \<or> \<not> obj_in g (spec t) \<longrightarrow> calls t' = calls t) \<and>
      (g \<notin> deletedKeys t \<and> \<not> obj_in g (store t) \<and> obj_in g (spec t) \<longrightarrow>
         (\<exists>rest. calls t' = calls t @ g # rest)) \<and>
      (closed_reads (spec t) K \<and> g \<in> K \<and> f \<notin> K \<longrightarrow>
         count_list (calls t') f = count_list (calls t) f) \<and>
      (f \<in> deletedKeys t \<or> obj_in f (store t) \<or> \<not> obj_in f (spec t) \<longrightarrow>
         count_list (calls t') f = count_list (calls t) f))"
proof -
  have new: "calls (mapping sp src) = []"
    by (simp add: mapping_def proxyFactory_def)
  have other: "count_list (calls t') f = count_list (calls t) f"
    if "get n t g = Some (r, t')" "closed_reads (spec t) K" "g \<in> K" "f \<notin> K"
    using get_keeps_count[OF that(2,4) refl that(3,1)] by (simp add: keeps_count_def)
  have quiet: "count_list (calls t') f = count_list (calls t) f"
    if "get n t g = Some (r, t')" "f \<in> deletedKeys t \<or> obj_in f (store t) \<or> \<not> obj_in f (spec t)"
    using get_keeps_settled[OF that(1), of f] that(2) by (simp add: keeps_settled_def settled_def)
  have shape: "(g \<in> deletedKeys t \<or> obj_in g (store t) \<or> \<not> obj_in g (spec t) \<longrightarrow> calls t' = calls t) \<and>
      (g \<notin> deletedKeys t \<and> \<not> obj_in g (store t) \<and> obj_in g (spec t) \<longrightarrow>
         (\<exists>rest. calls t' = calls t @ g # rest))"
    if g: "get n t g = Some (r, t')"
    using g
  proof (cases rule: get_cases)
    case same
    then show ?thesis by simp
  next
    case (raised m fn e)
    from run_calls_prefix[OF raised(6)] obtain ks where "calls t' = calls t @ g # ks"
      by auto
    with raised(2,3,4) show ?thesis by (auto simp: obj_in_def obj_own_def)
  next
    case (computed m fn v t1)
    from run_calls_prefix[OF computed(6)] computed(7) obtain ks where "calls t' = calls t @ g # ks"
      by auto
    with computed(2,3,4) show ?thesis by (auto simp: obj_in_def obj_own_def)
  qed
  from new other quiet shape show ?thesis by blast
qed

theorem get_invokes_only_what_is_read_witness:
  "get 1 (mapping person_spec ()) ''name''
     = Some (Inr (Value (VStr ''Lando Calrissian'')),
         \<lparr>spec = person_spec, source = (), store = [(''name'', VStr ''Lando Calrissian'')],
          deletedKeys = {}, calls = [''name'']\<rparr>) \<and>
   closed_reads person_spec {''name''} \<and>
   obj_in ''name'' (spec (mapping person_spec ())) \<and>
   \<not> obj_in ''name'' (store (mapping person_spec ())) \<and>
   count_list [''name''] ''phone'' = count_list (calls (mapping person_spec ())) ''phone''"
proof -
  have cl: "closed_reads person_spec {''name''}"
    by (simp add: closed_reads_def person_spec_def)
  show ?thesis
    using cl get_invokes_only_what_is_read[of person_spec "()" 1 "mapping person_spec ()" "''name''"
      "Inr (Value (VStr ''Lando Calrissian''))"
      "\<lparr>spec = person_spec, source = (), store = [(''name'', VStr ''Lando Calrissian'')],
          deletedKeys = {}, calls = [''name'']\<rparr>" "{''name''}" "''phone''"]
    by (simp add: handler_defs person_spec_def)
qed

text \<open>
  The claim as written fails on the self-referencing specification of the test suite
  cut down to two fields, \<open>sibling_spec\<close>, whose \<open>contactInfo\<close> reads \<^verbatim>\<open>this.name\<close>: a read of
  \<open>contactInfo\<close> on a fresh record invokes the compute function of \<open>name\<close>.
\<close>

theorem get_other_field_counterexample:
  "get 2 (mapping sibling_spec ()) ''contactInfo''
     = Some (Inr (Value (VStr ''Lando'')),
         \<lparr>spec = sibling_spec, source = (),
          store = [(''name'', VStr ''Lando''), (''contactInfo'', VStr ''Lando'')],
          deletedKeys = {}, calls = [''contactInfo'', ''name'']\<rparr>)"
  by (simp add: handler_defs sibling_spec_def numeral_2_eq_2)

text \<open>
  C5. For every field name \<open>f\<close>, \<open>delete(f)\<close> reports success; deleting twice is the same
  as deleting once; a read of \<open>f\<close> after the deletion returns undefined whatever the store
  held for \<open>f\<close> before; deleting a field that is already deleted changes nothing; and
  deleting a field that is absent (neither a property of the store nor a key of the
  specification) removes nothing and leaves \<open>has\<close>, the enumeration and the descriptor
  of \<open>f\<close> as they were.
\<close>

theorem delete_then_get:
  "fst (deleteProperty t f) = True \<and>
   snd (deleteProperty (snd (deleteProperty t f)) f) = snd (deleteProperty t f) \<and>
   get n (snd (deleteProperty t f)) f = Some (Inr (Value VUndefined), snd (deleteProperty t f)) \<and>
   (f \<in> deletedKeys t \<and> \<not> obj_own f (store t) \<longrightarrow> snd (deleteProperty t f) = t) \<and>
   (\<not> obj_own f (store t) \<and> \<not> obj_own f (spec t) \<longrightarrow>
      store (snd (deleteProperty t f)) = store t \<and>
      ownKeys (snd (deleteProperty t f)) = ownKeys t \<and>
      has (snd (deleteProperty t f)) f = has t f \<and>
      getOwnPropertyDescriptor (snd (deleteProperty t f)) f = getOwnPropertyDescriptor t f)"
proof -
  have a: "fst (deleteProperty t f) = True" by (simp add: deleteProperty_eq)
  have b: "snd (deleteProperty (snd (deleteProperty t f)) f) = snd (deleteProperty t f)"
    by (simp add: deleteProperty_eq obj_delete_twice)
  have c: "get n (snd (deleteProperty t f)) f
      = Some (Inr (Value VUndefined), snd (deleteProperty t f))"
    by (simp add: deleteProperty_eq get_tombstoned)
  have d: "snd (deleteProperty t f) = t" if "f \<in> deletedKeys t" "\<not> obj_own f (store t)"
    using that by (simp add: deleteProperty_eq obj_delete_absent insert_absorb)
  have e: "store (snd (deleteProperty t f)) = store t \<and>
      ownKeys (snd (deleteProperty t f)) = ownKeys t \<and>
      has (snd (deleteProperty t f)) f = has t f \<and>
      getOwnPropertyDescriptor (snd (deleteProperty t f)) f = getOwnPropertyDescriptor t f"
    if ns: "\<not> obj_own f (store t)" and nsp: "\<not> obj_own f (spec t)"
  proof -
    have st: "store (snd (deleteProperty t f)) = store t"
      using ns by (simp add: deleteProperty_eq obj_delete_absent)
    have "f \<notin> set (array_from_set (obj_keys (spec t) @ obj_keys (store t)))"
      using nsp ns by (rule not_in_array_from_set)
    then have ok: "ownKeys (snd (deleteProperty t f)) = ownKeys t"
      using ns by (auto simp: ownKeys_def deleteProperty_eq obj_delete_absent intro!: filter_cong)
    show ?thesis using st ok ns
      by (simp add: has_def getOwnPropertyDescriptor_def deleteProperty_eq obj_delete_absent)
  qed
  from a b c d e show ?thesis by blast
qed

theorem delete_then_get_witness:
  "get 1 (mapping const_spec ()) ''f''
     = Some (Inr (Value (VNum 1)),
         \<lparr>spec = const_spec, source = (), store = [(''f'', VNum 1)], deletedKeys = {}, calls = [''f'']\<rparr>) \<and>
   get 1 (snd (deleteProperty
       \<lparr>spec = const_spec, source = (), store = [(''f'', VNum 1)], deletedKeys = {}, calls = [''f'']\<rparr> ''f'')) ''f''
     = Some (Inr (Value VUndefined),
         \<lparr>spec = const_spec, source = (), store = [], deletedKeys = {''f''}, calls = [''f'']\<rparr>) \<and>
   \<not> obj_own ''g'' (store (mapping const_spec ())) \<and>
   \<not> obj_own ''g'' (spec (mapping const_spec ())) \<and>
   ownKeys (snd (deleteProperty (mapping const_spec ()) ''g'')) = [''f'']"
  using delete_then_get[of "\<lparr>spec = const_spec, source = (), store = [(''f'', VNum 1)], deletedKeys = {}, calls = [''f'']\<rparr>" "''f''" 1]
    delete_then_get[of "mapping const_spec ()" "''g''" 1]
  by (simp add: handler_defs keys_defs const_spec_def)

text \<open>
  C6, as amended. For every field name \<open>f\<close> other than \<^verbatim>\<open>__proto__\<close> and every value \<open>v\<close>, in
  every state of the record (whether or not \<open>f\<close> has a specification entry, a memoized
  value or a tombstone, and also when \<open>f\<close> is the name of another member of
  \<^verbatim>\<open>Object.prototype\<close>): the write invokes no compute function, and a read of \<open>f\<close> after
  \<open>set(f, v)\<close> returns \<open>v\<close> and leaves the record, the log of compute calls included, as
  the write left it. The same holds when the write follows a deletion of \<open>f\<close>: the
  write clears the tombstone. It also holds of the state a caller's assignment through
  the Proxy leaves, whatever the assignment reported.
\<close>

theorem set_then_get:
  assumes "f \<noteq> ''__proto__''"
  shows "get n (snd (set_handler t f v)) f = Some (Inr (Value v), snd (set_handler t f v)) \<and>
   get n (snd (set_handler (snd (deleteProperty t f)) f v)) f
     = Some (Inr (Value v), snd (set_handler (snd (deleteProperty t f)) f v)) \<and>
   get n (snd (assign t f v)) f = Some (Inr (Value v), snd (assign t f v)) \<and>
   calls (snd (set_handler t f v)) = calls t \<and>
   calls (snd (set_handler (snd (deleteProperty t f)) f v)) = calls t"
proof -
  have rd: "get n (snd (set_handler s f v)) f = Some (Inr (Value v), snd (set_handler s f v))"
    for s :: "'a ProxyTarget"
    using assms by (simp add: set_handler_eq get_stored obj_in_write obj_read_write_same)
  have "calls (snd (set_handler t f v)) = calls t"
    "calls (snd (set_handler (snd (deleteProperty t f)) f v)) = calls t"
    by (simp_all add: set_handler_eq deleteProperty_eq)
  with rd[of t] rd[of "snd (deleteProperty t f)"] show ?thesis
    by (simp add: assign_state)
qed

theorem set_then_get_witness:
  "''f'' \<noteq> ''__proto__'' \<and>
   get 0 (snd (set_handler (mapping const_spec ()) ''f'' (VNum 0))) ''f''
     = Some (Inr (Value (VNum 0)),
         \<lparr>spec = const_spec, source = (), store = [(''f'', VNum 0)], deletedKeys = {}, calls = []\<rparr>) \<and>
   ''toString'' \<noteq> ''__proto__'' \<and>
   get 1 (snd (set_handler (snd (deleteProperty (mapping shadowed_spec ()) ''toString'')) ''toString'' (VStr ''y''))) ''toString''
     = Some (Inr (Value (VStr ''y'')),
         \<lparr>spec = shadowed_spec, source = (), store = [(''toString'', VStr ''y'')], deletedKeys = {}, calls = []\<rparr>)"
  using set_then_get[of "''f''" 0 "mapping const_spec ()" "VNum 0"]
    set_then_get[of "''toString''" 1 "mapping shadowed_spec ()" "VStr ''y''"]
  by (simp add: handler_defs)

text \<open>
  The claim as written fails for the field name \<^verbatim>\<open>__proto__\<close>: the store is a plain object,
  so \<^verbatim>\<open>target.store['__proto__'] = 5\<close> reaches the setter inherited from \<^verbatim>\<open>Object.prototype\<close>,
  which ignores a value that is not an object and creates no property; the read that
  follows finds \<^verbatim>\<open>'__proto__' in target.store\<close> true and returns what the inherited getter
  returns, \<^verbatim>\<open>Object.prototype\<close>, not 5.
\<close>

theorem set_proto_counterexample:
  "snd (set_handler (mapping const_spec ()) ''__proto__'' (VNum 5))
     = \<lparr>spec = const_spec, source = (), store = [], deletedKeys = {}, calls = []\<rparr> \<and>
   get 1 (snd (set_handler (mapping const_spec ()) ''__proto__'' (VNum 5))) ''__proto__''
     = Some (Inr ObjectPrototype,
         \<lparr>spec = const_spec, source = (), store = [], deletedKeys = {}, calls = []\<rparr>)"
  by (simp add: handler_defs)




text \<open>
  C8. In every reachable state of a record whose specification lists each key once,
  \<open>ownKeys\<close> is the specification's keys that are not tombstoned, in the order of
  \<^verbatim>\<open>Object.keys\<close> of the specification, followed by the store's keys that are neither
  tombstoned nor specification keys, in the order of \<^verbatim>\<open>Object.keys\<close> of the store. It has
  no duplicates, and its elements are exactly the specification keys and the store
  keys minus the tombstoned names. The handler is a function of the current state that
  returns the list only: it is recomputed at each call and cannot invoke a compute
  function.
\<close>

theorem ownKeys_enumeration:
  assumes "reachable sp src t" and "distinct (obj_keys sp)"
  shows "ownKeys t =
       filter (\<lambda>k. k \<notin> deletedKeys t) (obj_keys sp) @
       filter (\<lambda>k. k \<notin> deletedKeys t \<and> \<not> obj_own k sp) (obj_keys (store t)) \<and>
     distinct (ownKeys t) \<and>
     set (ownKeys t) = (set (obj_keys sp) \<union> set (obj_keys (store t))) - deletedKeys t"
proof -
  from assms(1) have sp: "spec t = sp" and ds: "distinct (obj_keys (store t))"
    by (simp_all add: reachable_spec reachable_distinct distinct_obj_keys)
  have all: "array_from_set (obj_keys sp @ obj_keys (store t))
      = obj_keys sp @ filter (\<lambda>k. k \<notin> set (obj_keys sp)) (obj_keys (store t))"
    using assms(2) ds by (simp add: array_from_set_append array_from_set_distinct)
  have order: "ownKeys t =
       filter (\<lambda>k. k \<notin> deletedKeys t) (obj_keys sp) @
       filter (\<lambda>k. k \<notin> deletedKeys t \<and> \<not> obj_own k sp) (obj_keys (store t))"
    by (simp add: ownKeys_def sp all obj_own_keys conj_commute)
  have dist: "distinct (ownKeys t)"
    by (simp add: ownKeys_def distinct_array_from_set)
  have elems: "set (ownKeys t) = (set (obj_keys sp) \<union> set (obj_keys (store t))) - deletedKeys t"
    by (auto simp: ownKeys_def sp set_array_from_set)
  from order dist elems show ?thesis by blast
qed

theorem ownKeys_enumeration_witness:
  "reachable sibling_spec ()
     (snd (set_handler (snd (set_handler (snd (set_handler
        (snd (deleteProperty (mapping sibling_spec ()) ''name''))
        ''foo'' (VStr ''bar''))) ''10'' (VNum 1))) ''2'' (VNum 2))) \<and>
   distinct (obj_keys sibling_spec) \<and>
   ownKeys
     (snd (set_handler (snd (set_handler (snd (set_handler
        (snd (deleteProperty (mapping sibling_spec ()) ''name''))
        ''foo'' (VStr ''bar''))) ''10'' (VNum 1))) ''2'' (VNum 2)))
     = [''contactInfo'', ''2'', ''10'', ''foo'']"
proof -
  have r: "reachable sibling_spec ()
     (snd (set_handler (snd (set_handler (snd (set_handler
        (snd (deleteProperty (mapping sibling_spec ()) ''name''))
        ''foo'' (VStr ''bar''))) ''10'' (VNum 1))) ''2'' (VNum 2)))"
    by (intro reach_set reach_delete reach_new)
  have d: "distinct (obj_keys sibling_spec)"
    by (simp add: sibling_spec_def keys_defs)
  show ?thesis
    using r d ownKeys_enumeration[OF r d]
    by (simp add: handler_defs keys_defs sibling_spec_def)
qed




text \<open>
  C10, as amended. When no compute function of the specification deletes a field of
  the record, then in every reachable state the store's keys and the tombstone set are
  disjoint.
\<close>

theorem store_tombstones_disjoint:
  assumes "reachable sp src t" and "never_deletes sp"
  shows "set (obj_keys (store t)) \<inter> deletedKeys t = {}"
  using assms(1)
proof (induction rule: reachable.induct)
  case reach_new
  show ?case by (simp add: mapping_def proxyFactory_def set_obj_keys)
next
  case (reach_get t n p r t')
  from reach_get.hyps(1) have "spec t = sp" by (simp add: reachable_spec)
  from get_keeps_disjoint[OF assms(2) this reach_get.hyps(2)] reach_get.IH
  show ?case by (simp add: keeps_disjoint_def)
next
  case (reach_set t p v)
  then show ?case using obj_keys_write[of "store t" p v] by (auto simp: set_handler_eq)
next
  case (reach_delete t p)
  then show ?case by (auto simp: deleteProperty_eq obj_keys_delete)
qed

theorem store_tombstones_disjoint_witness:
  "never_deletes sibling_spec \<and>
   get 2 (mapping sibling_spec ()) ''contactInfo''
     = Some (Inr (Value (VStr ''Lando'')),
         \<lparr>spec = sibling_spec, source = (),
          store = [(''name'', VStr ''Lando''), (''contactInfo'', VStr ''Lando'')],
          deletedKeys = {}, calls = [''contactInfo'', ''name'']\<rparr>) \<and>
   reachable sibling_spec () (snd (deleteProperty
        \<lparr>spec = sibling_spec, source = (),
          store = [(''name'', VStr ''Lando''), (''contactInfo'', VStr ''Lando'')],
          deletedKeys = {}, calls = [''contactInfo'', ''name'']\<rparr> ''name'')) \<and>
   set (obj_keys (store (snd (deleteProperty
        \<lparr>spec = sibling_spec, source = (),
          store = [(''name'', VStr ''Lando''), (''contactInfo'', VStr ''Lando'')],
          deletedKeys = {}, calls = [''contactInfo'', ''name'']\<rparr> ''name'')))) = {''contactInfo''} \<and>
   deletedKeys (snd (deleteProperty
        \<lparr>spec = sibling_spec, source = (),
          store = [(''name'', VStr ''Lando''), (''contactInfo'', VStr ''Lando'')],
          deletedKeys = {}, calls = [''contactInfo'', ''name'']\<rparr> ''name'')) = {''name''}"
proof -
  let ?t1 = "\<lparr>spec = sibling_spec, source = (),
          store = [(''name'', VStr ''Lando''), (''contactInfo'', VStr ''Lando'')],
          deletedKeys = {}, calls = [''contactInfo'', ''name'']\<rparr>"
  have nd: "never_deletes sibling_spec"
    by (simp add: never_deletes_def sibling_spec_def this_read_def split: sum.split got.split val.split)
  have g: "get 2 (mapping sibling_spec ()) ''contactInfo'' = Some (Inr (Value (VStr ''Lando'')), ?t1)"
    by (simp add: handler_defs sibling_spec_def numeral_2_eq_2)
  have r: "reachable sibling_spec () (snd (deleteProperty ?t1 ''name''))"
    by (intro reach_delete reach_get[OF reach_new g])
  show ?thesis
    using nd g r store_tombstones_disjoint[OF r nd]
    by (simp add: handler_defs set_obj_keys)
qed

text \<open>
  The claim as written fails on \<^verbatim>\<open>{ f() { delete this.f; return 1 } }\<close>: the handler tests
  the tombstone before it calls the compute function and memoizes the result without
  testing it again, so one read of \<open>f\<close> on the fresh record leaves \<open>f\<close> both stored and
  tombstoned.
\<close>

theorem store_tombstones_counterexample:
  "get 1 (mapping self_deleting_spec ()) ''f''
     = Some (Inr (Value (VNum 1)),
         \<lparr>spec = self_deleting_spec, source = (), store = [(''f'', VNum 1)],
          deletedKeys = {''f''}, calls = [''f'']\<rparr>)"
  by (simp add: handler_defs self_deleting_spec_def)

end
